theory Spec2Isabelle
  imports Main "HOL-Library.Word"
begin

section \<open>Wide strings and the C library functions the tokenizer calls\<close>

text \<open>
  A \<^verbatim>\<open>wchar_t\<close> string is the list of its characters before the terminating
  \<^verbatim>\<open>L'\0'\<close>. Characters are 32-bit values, so the djb2 hash adds them to its
  \<^verbatim>\<open>unsigned int\<close> accumulator as they are. \<open>wstr\<close> writes a wide literal
  \<^verbatim>\<open>L"..."\<close> from a HOL string.
  Allocation (\<^verbatim>\<open>malloc\<close>, \<^verbatim>\<open>realloc\<close>, \<^verbatim>\<open>wcsdup\<close>) is taken to
  succeed, and the \<^verbatim>\<open>int\<close> counters \<open>freq\<close> and \<open>count\<close> are the integers
  they hold while they stay below \<^verbatim>\<open>INT_MAX\<close>.
\<close>

type_synonym wchar = "32 word"
type_synonym wstring = "wchar list"

definition wstr :: "string \<Rightarrow> wstring" where
  "wstr s = map of_char s"

definition SP :: wchar where
  "SP = 32"

definition MAX_TOKEN_LEN :: nat where
  "MAX_TOKEN_LEN = 128"

definition MAX_PAIR_LEN :: nat where
  "MAX_PAIR_LEN = 256"

definition HASH_SIZE :: nat where
  "HASH_SIZE = 10000"

definition MAX_VOCAB_SIZE :: nat where
  "MAX_VOCAB_SIZE = 50000"

definition MAX_SYMBOLS :: nat where
  \<comment> \<open>the length of \<^verbatim>\<open>wchar_t *symbols[256]\<close> in the counting pass\<close>
  "MAX_SYMBOLS = 256"

text \<open>
  \<^verbatim>\<open>swprintf(buf, n, fmt, ...)\<close> writes at most \<open>n\<close> wide characters, the terminating
  null included, so the buffer holds the first \<open>n - 1\<close> characters of the formatted
  text. The two formats of the source are \<^verbatim>\<open>L"%ls %ls"\<close> and \<^verbatim>\<open>L"%ls%ls"\<close>.
\<close>

definition swprintf :: "nat \<Rightarrow> wstring \<Rightarrow> wstring" where
  "swprintf n s = take (n - 1) s"

definition fmt_ls_sp_ls :: "wstring \<Rightarrow> wstring \<Rightarrow> wstring" where
  "fmt_ls_sp_ls a b = a @ SP # b"

definition fmt_ls_ls :: "wstring \<Rightarrow> wstring \<Rightarrow> wstring" where
  "fmt_ls_ls a b = a @ b"

text \<open>
  \<^verbatim>\<open>wcstok(s, L" ", NULL)\<close> and its continuation \<^verbatim>\<open>wcstok(NULL, L" ", NULL)\<close>: the
  source passes no save pointer and relies on the tokenizer's own position. The
  position is threaded here: \<open>wcstok s\<close> skips the leading spaces of the text \<open>s\<close> still
  to be read and returns the next token (or \<open>None\<close> for \<^verbatim>\<open>NULL\<close>) with the text after
  the space that ends it.
\<close>

definition wcstok :: "wstring \<Rightarrow> wstring option \<times> wstring" where
  "wcstok s =
     (let s1 = dropWhile (\<lambda>c. c = SP) s in
      if s1 = [] then (None, [])
      else (Some (takeWhile (\<lambda>c. c \<noteq> SP) s1), drop 1 (dropWhile (\<lambda>c. c \<noteq> SP) s1)))"

datatype error = BufferOverflow

text \<open>
  \<^verbatim>\<open>wcscat(new_token, s)\<close> on \<^verbatim>\<open>wchar_t new_token[MAX_TOKEN_LEN]\<close>: the call does not
  check the room left, so text that does not fit with its terminator is written past
  the array. That execution has no defined result and is the error value here.
\<close>

definition wcscat :: "wstring \<Rightarrow> wstring \<Rightarrow> error + wstring" where
  "wcscat dest s =
     (if length dest + length s < MAX_TOKEN_LEN then Inr (dest @ s) else Inl BufferOverflow)"

section \<open>The vocabulary and the pair hash map\<close>

record VocabEntry =
  token :: wstring
  id_v :: "32 word"
  freq :: int

record BPE_Pair =
  pair :: wstring
  count :: int
  id_p :: "32 word"

text \<open>
  \<^verbatim>\<open>BPE_HashMap\<close>: \<open>table i\<close> is the chain whose head is \<^verbatim>\<open>map->table[i]\<close>, read
  from the head. The mutexes guard single calls of a program that starts no thread.
\<close>

type_synonym BPE_HashMap = "nat \<Rightarrow> BPE_Pair list"

fun hash_loop :: "32 word \<Rightarrow> wstring \<Rightarrow> 32 word" where
  "hash_loop hash_val [] = hash_val"
| "hash_loop hash_val (c # cs) = hash_loop ((push_bit 5 hash_val + hash_val) + c) cs"

definition hash :: "wstring \<Rightarrow> nat" where
  "hash p = unat (hash_loop 5381 p) mod HASH_SIZE"

definition create_bpe_hashmap :: BPE_HashMap where
  "create_bpe_hashmap = (\<lambda>i. [])"

text \<open>The \<^verbatim>\<open>while (entry)\<close> scan of \<open>add_pair\<close>: \<open>None\<close> when no entry holds the key.\<close>

fun bump_chain :: "wstring \<Rightarrow> BPE_Pair list \<Rightarrow> BPE_Pair list option" where
  "bump_chain p [] = None"
| "bump_chain p (entry # rest) =
     (if pair entry = p then Some (entry\<lparr>count := count entry + 1\<rparr> # rest)
      else map_option (\<lambda>r. entry # r) (bump_chain p rest))"

definition add_pair :: "BPE_HashMap \<Rightarrow> wstring \<Rightarrow> 32 word \<Rightarrow> BPE_HashMap" where
  "add_pair m p i =
     (let index = hash p in
      case bump_chain p (m index) of
        Some chain \<Rightarrow> m(index := chain)
      | None \<Rightarrow> m(index := \<lparr>pair = p, count = 1, id_p = i\<rparr> # m index))"

text \<open>\<open>add_to_vocabulary\<close>: the global array \<open>vocabulary\<close> is the list, \<open>vocab_size\<close> its length.\<close>

fun bump_freq :: "wstring \<Rightarrow> VocabEntry list \<Rightarrow> VocabEntry list option" where
  "bump_freq t [] = None"
| "bump_freq t (e # es) =
     (if token e = t then Some (e\<lparr>freq := freq e + 1\<rparr> # es)
      else map_option (\<lambda>r. e # r) (bump_freq t es))"

definition add_to_vocabulary :: "VocabEntry list \<Rightarrow> wstring \<Rightarrow> VocabEntry list" where
  "add_to_vocabulary vocabulary t =
     (case bump_freq t vocabulary of
        Some v \<Rightarrow> v
      | None \<Rightarrow>
          if length vocabulary < MAX_VOCAB_SIZE
          then vocabulary @ [\<lparr>token = t, id_v = of_nat (length vocabulary), freq = 1\<rparr>]
          else vocabulary)"

text \<open>\<open>find_most_frequent_pair\<close>: the inner \<^verbatim>\<open>while\<close> over one chain, then the outer \<^verbatim>\<open>for\<close>.\<close>

fun scan_chain :: "BPE_Pair list \<Rightarrow> wstring \<times> int \<Rightarrow> wstring \<times> int" where
  "scan_chain [] best = best"
| "scan_chain (entry # rest) (best_pair, best_count) =
     scan_chain rest
       (if count entry > best_count then (pair entry, count entry) else (best_pair, best_count))"

definition find_most_frequent_pair :: "BPE_HashMap \<Rightarrow> wstring \<times> int" where
  "find_most_frequent_pair m = fold (\<lambda>i best. scan_chain (m i) best) [0..<HASH_SIZE] ([], 0)"

section \<open>The counting pass\<close>

text \<open>
  Lines 264--268: the tokens of the word are stored in \<^verbatim>\<open>symbols[256]\<close> while there is
  a token and room for it. \<open>tok\<close> is the token in hand, \<open>rest\<close> the text not yet read.
\<close>

function collect_symbols :: "wstring option \<Rightarrow> wstring \<Rightarrow> wstring list \<Rightarrow> wstring list" where
  "collect_symbols tok rest symbols =
     (case tok of
        None \<Rightarrow> symbols
      | Some t \<Rightarrow>
          if length symbols < MAX_SYMBOLS
          then (case wcstok rest of (tok', rest') \<Rightarrow> collect_symbols tok' rest' (symbols @ [t]))
          else symbols)"
  by pat_completeness auto
termination
  by (relation "measure (\<lambda>(tok, rest, symbols). MAX_SYMBOLS - length symbols)") auto

definition word_symbols :: "wstring \<Rightarrow> wstring list" where
  "word_symbols word_copy = (case wcstok word_copy of (tok, rest) \<Rightarrow> collect_symbols tok rest [])"

text \<open>Lines 272--274: \<open>add_pair\<close> is called once for every \<open>k\<close> from 0 below the frequency.\<close>

function add_pair_loop :: "int \<Rightarrow> int \<Rightarrow> wstring \<Rightarrow> 32 word \<Rightarrow> BPE_HashMap \<Rightarrow> BPE_HashMap" where
  "add_pair_loop k f p i m = (if k < f then add_pair_loop (k + 1) f p i (add_pair m p i) else m)"
  by pat_completeness auto
termination
  by (relation "measure (\<lambda>(k, f, p, i, m). nat (f - k))") auto

text \<open>Lines 269--275: the pair of \<open>symbols[j]\<close> and \<open>symbols[j+1]\<close> for every \<open>j < symbol_count - 1\<close>.\<close>

fun count_pairs :: "wstring list \<Rightarrow> int \<Rightarrow> 32 word \<Rightarrow> BPE_HashMap \<Rightarrow> BPE_HashMap" where
  "count_pairs (a # b # rest) f i m =
     count_pairs (b # rest) f i (add_pair_loop 0 f (swprintf MAX_PAIR_LEN (fmt_ls_sp_ls a b)) i m)"
| "count_pairs symbols f i m = m"

text \<open>Lines 259--277: the loop over the vocabulary; \<open>i\<close> is the index of the entry at the head.\<close>

fun count_vocab :: "VocabEntry list \<Rightarrow> nat \<Rightarrow> BPE_HashMap \<Rightarrow> BPE_HashMap" where
  "count_vocab [] i m = m"
| "count_vocab (e # es) i m =
     count_vocab es (i + 1) (count_pairs (word_symbols (token e)) (freq e) (of_nat i) m)"

section \<open>The merge pass\<close>

text \<open>Lines 309--310 and 316--317: the separator unless this is the first symbol, then the symbol.\<close>

definition append_symbol :: "wstring \<Rightarrow> bool \<Rightarrow> wstring \<Rightarrow> error + wstring" where
  "append_symbol new_token first s =
     (if first then wcscat new_token s
      else case wcscat new_token [SP] of Inl e \<Rightarrow> Inl e | Inr nt \<Rightarrow> wcscat nt s)"

lemma wcstok_shorter: "wcstok s = (Some t, r) \<Longrightarrow> length r < length s"
proof -
  assume a: "wcstok s = (Some t, r)"
  let ?s1 = "dropWhile (\<lambda>c. c = SP) s"
  from a have ne: "?s1 \<noteq> []" and r: "r = drop 1 (dropWhile (\<lambda>c. c \<noteq> SP) ?s1)"
    by (auto simp: wcstok_def Let_def split: if_splits)
  have "length (dropWhile (\<lambda>c. c \<noteq> SP) ?s1) \<le> length ?s1"
    by (rule length_dropWhile_le)
  moreover have "length ?s1 \<le> length s"
    by (rule length_dropWhile_le)
  moreover from ne have "0 < length ?s1"
    by (cases ?s1) simp_all
  ultimately show ?thesis
    unfolding r length_drop by linarith
qed

text \<open>
  Lines 299--320: \<open>symb\<close> is the symbol \<^verbatim>\<open>sym\<close> in hand, \<open>rest\<close> the text not yet read. A symbol
  and its successor that print as \<open>best_pair\<close> are appended as one symbol and the
  scan goes on after the successor; any other symbol is appended as it is.
\<close>

function merge_loop ::
  "wstring \<Rightarrow> wstring option \<Rightarrow> wstring \<Rightarrow> wstring \<Rightarrow> bool \<Rightarrow> error + wstring" where
  "merge_loop best_pair symb rest new_token first =
     (case symb of
        None \<Rightarrow> Inr new_token
      | Some s \<Rightarrow>
          (case wcstok rest of
             (Some n, rest1) \<Rightarrow>
               if swprintf MAX_PAIR_LEN (fmt_ls_sp_ls s n) = best_pair
               then (case append_symbol new_token first (swprintf MAX_TOKEN_LEN (fmt_ls_ls s n)) of
                       Inl e \<Rightarrow> Inl e
                     | Inr nt \<Rightarrow>
                         (case wcstok rest1 of
                            (symb', rest2) \<Rightarrow> merge_loop best_pair symb' rest2 nt False))
               else (case append_symbol new_token first s of
                       Inl e \<Rightarrow> Inl e
                     | Inr nt \<Rightarrow> merge_loop best_pair (Some n) rest1 nt False)
           | (None, rest1) \<Rightarrow>
               (case append_symbol new_token first s of
                  Inl e \<Rightarrow> Inl e
                | Inr nt \<Rightarrow> merge_loop best_pair None rest1 nt False)))"
  by pat_completeness auto
termination
  apply (relation "measure (\<lambda>(bp, symb, rest, nt, first). case symb of None \<Rightarrow> 0 | Some s \<Rightarrow> Suc (length rest))")
     apply simp
    apply (auto dest!: sym[THEN wcstok_shorter] split: option.splits)
  done

definition merge_token :: "wstring \<Rightarrow> wstring \<Rightarrow> error + wstring" where
  "merge_token best_pair old_token =
     (case wcstok old_token of (symb, rest) \<Rightarrow> merge_loop best_pair symb rest [] True)"

text \<open>Lines 292--327: every entry's token is replaced; \<open>id\<close> and \<open>freq\<close> are not assigned.\<close>

fun merge_vocab :: "wstring \<Rightarrow> VocabEntry list \<Rightarrow> error + VocabEntry list" where
  "merge_vocab best_pair [] = Inr []"
| "merge_vocab best_pair (e # es) =
     (case merge_token best_pair (token e) of
        Inl x \<Rightarrow> Inl x
      | Inr updated \<Rightarrow>
          (case merge_vocab best_pair es of
             Inl x \<Rightarrow> Inl x
           | Inr es' \<Rightarrow> Inr (e\<lparr>token := updated\<rparr> # es')))"

section \<open>The induction loop\<close>

text \<open>
  The two messages of \<open>bpe_subword_merge\<close>: \<^verbatim>\<open>Subword Merge %d: Pair "%s" with frequency %d\<close>
  and \<^verbatim>\<open>No more pairs to merge. Stopping merges.\<close>
\<close>

datatype log = Merge_Info int wstring int | No_More_Pairs

function bpe_loop :: "int \<Rightarrow> int \<Rightarrow> VocabEntry list \<Rightarrow> error + VocabEntry list \<times> log list" where
  "bpe_loop merge_iter num_merges vocabulary =
     (if merge_iter < num_merges then
        (case find_most_frequent_pair (count_vocab vocabulary 0 create_bpe_hashmap) of
           (best_pair, best_count) \<Rightarrow>
             if best_count < 1 then Inr (vocabulary, [No_More_Pairs])
             else (case merge_vocab best_pair vocabulary of
                     Inl x \<Rightarrow> Inl x
                   | Inr vocabulary' \<Rightarrow>
                       (case bpe_loop (merge_iter + 1) num_merges vocabulary' of
                          Inl x \<Rightarrow> Inl x
                        | Inr (v, lg) \<Rightarrow>
                            Inr (v, Merge_Info (merge_iter + 1) best_pair best_count # lg))))
      else Inr (vocabulary, []))"
  by pat_completeness auto
termination
  by (relation "measure (\<lambda>(merge_iter, num_merges, vocabulary). nat (num_merges - merge_iter))") auto

definition bpe_subword_merge :: "int \<Rightarrow> VocabEntry list \<Rightarrow> error + VocabEntry list \<times> log list" where
  "bpe_subword_merge num_merges vocabulary = bpe_loop 0 num_merges vocabulary"

section \<open>Notions the properties are stated with\<close>

text \<open>
  A symbol is a non-empty text without the separator. \<open>split_symbols\<close> is the whole
  symbol sequence of a surface form (every token \<open>wcstok\<close> yields, with no bound on
  their number), \<open>join_symbols\<close> the surface form of a symbol sequence.
\<close>

definition is_symbol :: "wstring \<Rightarrow> bool" where
  "is_symbol s = (s \<noteq> [] \<and> SP \<notin> set s)"

function split_symbols :: "wstring \<Rightarrow> wstring list" where
  "split_symbols s = (case wcstok s of (None, rest) \<Rightarrow> [] | (Some t, rest) \<Rightarrow> t # split_symbols rest)"
  by pat_completeness auto
termination
  by (relation "measure length") (auto dest!: sym[THEN wcstok_shorter])

declare split_symbols.simps [simp del]

fun join_symbols :: "wstring list \<Rightarrow> wstring" where
  "join_symbols [] = []"
| "join_symbols (x # xs) = x @ concat (map (\<lambda>y. SP # y) xs)"

text \<open>
  \<open>pair_key\<close> is the key the source prints for two adjacent symbols and
  \<open>merged_symbol\<close> their fused symbol, each as its buffer holds it.
  \<open>merge_syms\<close> is the merge as the specification words it: scan left to right, emit
  the fused symbol and advance past both symbols when two consecutive symbols are the
  selected pair, else emit the symbol and advance by one. \<open>fires\<close> counts the fused
  symbols emitted. \<open>append_symbols\<close> writes a symbol sequence into \<open>new_token\<close>.
\<close>

definition pair_key :: "wstring \<Rightarrow> wstring \<Rightarrow> wstring" where
  "pair_key a b = swprintf MAX_PAIR_LEN (fmt_ls_sp_ls a b)"

definition merged_symbol :: "wstring \<Rightarrow> wstring \<Rightarrow> wstring" where
  "merged_symbol a b = swprintf MAX_TOKEN_LEN (fmt_ls_ls a b)"

fun merge_syms :: "wstring \<Rightarrow> wstring list \<Rightarrow> wstring list" where
  "merge_syms bp (a # b # rest) =
     (if pair_key a b = bp then merged_symbol a b # merge_syms bp rest
      else a # merge_syms bp (b # rest))"
| "merge_syms bp xs = xs"

fun fires :: "wstring \<Rightarrow> wstring list \<Rightarrow> nat" where
  "fires bp (a # b # rest) =
     (if pair_key a b = bp then Suc (fires bp rest) else fires bp (b # rest))"
| "fires bp xs = 0"

fun append_symbols :: "wstring \<Rightarrow> bool \<Rightarrow> wstring list \<Rightarrow> error + wstring" where
  "append_symbols new_token first [] = Inr new_token"
| "append_symbols new_token first (x # xs) =
     (case append_symbol new_token first x of
        Inl e \<Rightarrow> Inl e
      | Inr nt \<Rightarrow> append_symbols nt False xs)"

text \<open>
  \<open>chain_count k c\<close> is the count of the first entry of chain \<open>c\<close> that holds key \<open>k\<close>
  (0 when none does), \<open>pair_count m k\<close> the count the table records for \<open>k\<close>, and
  \<open>occurrences k symbols\<close> the number of positions \<open>j\<close> at which \<open>symbols[j]\<close> and
  \<open>symbols[j+1]\<close> print as the key \<open>k\<close>.
\<close>

definition chain_count :: "wstring \<Rightarrow> BPE_Pair list \<Rightarrow> int" where
  "chain_count k c = (case find (\<lambda>e. pair e = k) c of None \<Rightarrow> 0 | Some e \<Rightarrow> count e)"

definition pair_count :: "BPE_HashMap \<Rightarrow> wstring \<Rightarrow> int" where
  "pair_count m k = chain_count k (m (hash k))"

fun occurrences :: "wstring \<Rightarrow> wstring list \<Rightarrow> nat" where
  "occurrences k (a # b # rest) = (if pair_key a b = k then 1 else 0) + occurrences k (b # rest)"
| "occurrences k symbols = 0"

text \<open>Stores at which the properties are instantiated.\<close>

definition abab_store :: "VocabEntry list" where
  "abab_store = [\<lparr>token = wstr ''a b a b'', id_v = 0, freq = 1\<rparr>,
                 \<lparr>token = wstr ''c d'', id_v = 1, freq = 2\<rparr>]"

definition abab_merged :: "VocabEntry list" where
  "abab_merged = [\<lparr>token = wstr ''ab ab'', id_v = 0, freq = 1\<rparr>,
                  \<lparr>token = wstr ''c d'', id_v = 1, freq = 2\<rparr>]"

definition long_token :: wstring where
  "long_token = join_symbols (replicate 256 (wstr ''a'') @ [wstr ''b'', wstr ''c''])"

definition long_entry :: VocabEntry where
  "long_entry = \<lparr>token = long_token, id_v = 0, freq = 1\<rparr>"

text \<open>
  \<open>all_entries\<close> lists the entries in the order \<open>find_most_frequent_pair\<close> visits them:
  partitions by increasing index, each chain from its head. A reachable table is one
  built from \<open>create_bpe_hashmap\<close> by calls of \<open>add_pair\<close>.
\<close>

definition all_entries :: "BPE_HashMap \<Rightarrow> BPE_Pair list" where
  "all_entries m = concat (map m [0..<HASH_SIZE])"

inductive reachable :: "BPE_HashMap \<Rightarrow> bool" where
  reachable_create: "reachable create_bpe_hashmap"
| reachable_add: "reachable m \<Longrightarrow> reachable (add_pair m p i)"

definition table_inv :: "BPE_HashMap \<Rightarrow> bool" where
  "table_inv m =
     (\<forall>i. (HASH_SIZE \<le> i \<longrightarrow> m i = []) \<and> distinct (map pair (m i)) \<and>
          (\<forall>e\<in>set (m i). hash (pair e) = i \<and> 0 < count e))"

text \<open>
  A table with finitely many non-empty chains is written as the list of these chains
  with their indices, in increasing order of index. \<open>add_pair\<close> and
  \<open>find_most_frequent_pair\<close> are computed on this list.
\<close>

definition sparse :: "(nat \<times> BPE_Pair list) list \<Rightarrow> BPE_HashMap" where
  "sparse xs i = (case map_of xs i of None \<Rightarrow> [] | Some c \<Rightarrow> c)"

fun sparse_upd :: "nat \<Rightarrow> BPE_Pair list \<Rightarrow> (nat \<times> BPE_Pair list) list \<Rightarrow> (nat \<times> BPE_Pair list) list" where
  "sparse_upd k c [] = [(k, c)]"
| "sparse_upd k c ((k', c') # xs) =
     (if k = k' then (k, c) # xs
      else if k < k' then (k, c) # (k', c') # xs
      else (k', c') # sparse_upd k c xs)"

text \<open>
  The store of the end-to-end scenario and the table its counting pass builds, as the
  list of its non-empty chains.
\<close>

definition scenario_store :: "VocabEntry list" where
  "scenario_store =
     [\<lparr>token = wstr ''l o w'', id_v = 0, freq = 5\<rparr>,
      \<lparr>token = wstr ''l o w e r'', id_v = 1, freq = 2\<rparr>,
      \<lparr>token = wstr ''n e w e s t'', id_v = 2, freq = 6\<rparr>,
      \<lparr>token = wstr ''w i d e s t'', id_v = 3, freq = 3\<rparr>]"

definition scenario_chains :: "(nat \<times> BPE_Pair list) list" where
  "scenario_chains =
     [(2498, [\<lparr>pair = wstr ''i d'', count = 3, id_p = 3\<rparr>]),
      (3404, [\<lparr>pair = wstr ''s t'', count = 9, id_p = 2\<rparr>]),
      (5776, [\<lparr>pair = wstr ''l o'', count = 7, id_p = 0\<rparr>]),
      (7054, [\<lparr>pair = wstr ''d e'', count = 3, id_p = 3\<rparr>]),
      (7745, [\<lparr>pair = wstr ''w e'', count = 8, id_p = 1\<rparr>]),
      (7749, [\<lparr>pair = wstr ''w i'', count = 3, id_p = 3\<rparr>]),
      (7944, [\<lparr>pair = wstr ''n e'', count = 6, id_p = 2\<rparr>]),
      (8156, [\<lparr>pair = wstr ''e r'', count = 2, id_p = 1\<rparr>]),
      (8157, [\<lparr>pair = wstr ''e s'', count = 9, id_p = 2\<rparr>]),
      (8161, [\<lparr>pair = wstr ''e w'', count = 6, id_p = 2\<rparr>]),
      (9051, [\<lparr>pair = wstr ''o w'', count = 7, id_p = 0\<rparr>])]"

definition scenario_merged :: "VocabEntry list" where
  "scenario_merged =
     [\<lparr>token = wstr ''l o w'', id_v = 0, freq = 5\<rparr>,
      \<lparr>token = wstr ''l o w e r'', id_v = 1, freq = 2\<rparr>,
      \<lparr>token = wstr ''n e w e st'', id_v = 2, freq = 6\<rparr>,
      \<lparr>token = wstr ''w i d e st'', id_v = 3, freq = 3\<rparr>]"

definition scenario_claimed :: "VocabEntry list" where
  "scenario_claimed =
     [\<lparr>token = wstr ''l o w'', id_v = 0, freq = 5\<rparr>,
      \<lparr>token = wstr ''l o w e r'', id_v = 1, freq = 2\<rparr>,
      \<lparr>token = wstr ''n e w es t'', id_v = 2, freq = 6\<rparr>,
      \<lparr>token = wstr ''w i d es t'', id_v = 3, freq = 3\<rparr>]"

text \<open>\<open>is_merge\<close> tells the record of a merge from the closing message.\<close>

fun is_merge :: "log \<Rightarrow> bool" where
  "is_merge (Merge_Info k p c) = True"
| "is_merge No_More_Pairs = False"

definition one_pair_store :: "VocabEntry list" where
  "one_pair_store = [\<lparr>token = wstr ''a b'', id_v = 0, freq = 1\<rparr>]"

definition one_symbol_store :: "VocabEntry list" where
  "one_symbol_store = [\<lparr>token = wstr ''ab'', id_v = 0, freq = 1\<rparr>]"

definition full_store :: "VocabEntry list" where
  \<comment> \<open>50000 entries: the words \<open>a\<close>, \<open>aa\<close>, \<open>aaa\<close>, ... in the order of their ids\<close>
  "full_store = map (\<lambda>n. \<lparr>token = replicate (Suc n) 97, id_v = of_nat n, freq = 1\<rparr>) [0..<50000]"

definition small_store :: "VocabEntry list" where
  "small_store = [\<lparr>token = wstr ''low'', id_v = 0, freq = 5\<rparr>,
                  \<lparr>token = wstr ''new'', id_v = 1, freq = 2\<rparr>]"

section \<open>Symbols of a surface form\<close>

declare collect_symbols.simps [simp del] add_pair_loop.simps [simp del]
  merge_loop.simps [simp del] bpe_loop.simps [simp del]

lemma split_symbols_None: "wcstok s = (None, r) \<Longrightarrow> split_symbols s = []"
  by (subst split_symbols.simps) simp

lemma split_symbols_Some: "wcstok s = (Some t, r) \<Longrightarrow> split_symbols s = t # split_symbols r"
  by (subst split_symbols.simps) simp

lemma wcstok_Nil: "wcstok [] = (None, [])"
  by (simp add: wcstok_def)

lemma wcstok_symbol: "wcstok s = (Some t, r) \<Longrightarrow> is_symbol t"
proof -
  assume a: "wcstok s = (Some t, r)"
  let ?s1 = "dropWhile (\<lambda>c. c = SP) s"
  from a have ne: "?s1 \<noteq> []" and t: "t = takeWhile (\<lambda>c. c \<noteq> SP) ?s1"
    by (auto simp: wcstok_def Let_def split: if_splits)
  from ne have "hd ?s1 \<noteq> SP"
    using hd_dropWhile[of "\<lambda>c. c = SP" s] by blast
  with ne have "t \<noteq> []"
    unfolding t by (cases ?s1) auto
  moreover have "SP \<notin> set t"
    unfolding t using set_takeWhileD by fastforce
  ultimately show ?thesis by (simp add: is_symbol_def)
qed

lemma split_symbols_are_symbols: "t \<in> set (split_symbols s) \<Longrightarrow> is_symbol t"
proof (induction s rule: split_symbols.induct)
  case (1 s)
  obtain tok r where w: "wcstok s = (tok, r)" by (cases "wcstok s")
  show ?case
  proof (cases tok)
    case None
    with w 1(2) show ?thesis by (simp add: split_symbols_None)
  next
    case (Some a)
    with w have ss: "split_symbols s = a # split_symbols r"
      by (simp add: split_symbols_Some)
    from w Some have "is_symbol a" by (auto dest: wcstok_symbol)
    moreover from w have "(tok, r) = wcstok s" by simp
    note 1(1)[OF this Some]
    ultimately show ?thesis using 1(2) ss by auto
  qed
qed

lemma wcstok_symbol_sep: "is_symbol a \<Longrightarrow> wcstok (a @ SP # r) = (Some a, r)"
proof -
  assume a: "is_symbol a"
  then obtain c cs where acs: "a = c # cs" and c: "c \<noteq> SP"
    by (cases a) (auto simp: is_symbol_def)
  from a have all: "\<forall>x\<in>set a. x \<noteq> SP" by (auto simp: is_symbol_def)
  have d: "dropWhile (\<lambda>c. c = SP) (a @ SP # r) = a @ SP # r"
    using acs c by simp
  have t: "takeWhile (\<lambda>c. c \<noteq> SP) (a @ SP # r) = a"
    using all by (simp add: takeWhile_append2)
  have e: "dropWhile (\<lambda>c. c \<noteq> SP) (a @ SP # r) = SP # r"
    using all by (simp add: dropWhile_append2)
  show ?thesis
    unfolding wcstok_def Let_def d t e using acs by simp
qed

lemma wcstok_symbol_end: "is_symbol a \<Longrightarrow> wcstok a = (Some a, [])"
proof -
  assume a: "is_symbol a"
  then obtain c cs where acs: "a = c # cs" and c: "c \<noteq> SP"
    by (cases a) (auto simp: is_symbol_def)
  from a have all: "\<forall>x\<in>set a. x \<noteq> SP" by (auto simp: is_symbol_def)
  have d: "dropWhile (\<lambda>c. c = SP) a = a"
    using acs c by simp
  have t: "takeWhile (\<lambda>c. c \<noteq> SP) a = a"
    using all by (simp add: takeWhile_eq_all_conv)
  have e: "dropWhile (\<lambda>c. c \<noteq> SP) a = []"
    using all by simp
  show ?thesis
    unfolding wcstok_def Let_def d t e using acs by simp
qed

lemma split_symbols_Nil: "split_symbols [] = []"
  by (simp add: split_symbols_None[OF wcstok_Nil])

lemma split_symbols_SP: "split_symbols (SP # s) = split_symbols s"
  by (subst split_symbols.simps, subst (2) split_symbols.simps) (simp add: wcstok_def)

lemma split_symbols_symbol_sep: "is_symbol a \<Longrightarrow> split_symbols (a @ SP # r) = a # split_symbols r"
  by (rule split_symbols_Some) (rule wcstok_symbol_sep)

lemma split_symbols_symbol_end: "is_symbol a \<Longrightarrow> split_symbols a = [a]"
  using split_symbols_Some[OF wcstok_symbol_end, of a] by (simp add: split_symbols_Nil)

lemma split_symbols_seps:
  "\<forall>x\<in>set xs. is_symbol x \<Longrightarrow> split_symbols (concat (map (\<lambda>y. SP # y) xs)) = xs"
proof (induction xs)
  case Nil
  show ?case by (simp add: split_symbols_Nil)
next
  case (Cons x xs)
  from Cons have ih: "split_symbols (concat (map (\<lambda>y. SP # y) xs)) = xs" and x: "is_symbol x"
    by simp_all
  show ?case
  proof (cases xs)
    case Nil
    with x show ?thesis
      by (simp add: split_symbols_SP split_symbols_symbol_end)
  next
    case (Cons y ys)
    with x ih show ?thesis
      by (simp add: split_symbols_SP split_symbols_symbol_sep)
  qed
qed

lemma split_join_symbols:
  "\<forall>x\<in>set xs. is_symbol x \<Longrightarrow> split_symbols (join_symbols xs) = xs"
proof (cases xs)
  case Nil
  then show ?thesis by (simp add: split_symbols_Nil)
next
  case (Cons x ys)
  assume a: "\<forall>x\<in>set xs. is_symbol x"
  with Cons have x: "is_symbol x" and ys: "\<forall>y\<in>set ys. is_symbol y" by simp_all
  have "split_symbols (SP # x @ concat (map (\<lambda>y. SP # y) ys)) = x # ys"
    using split_symbols_seps[of "x # ys"] x ys by simp
  then show ?thesis using Cons by (simp add: split_symbols_SP)
qed

lemma collect_symbols_eq:
  "collect_symbols tok rest symbols =
     symbols @ take (MAX_SYMBOLS - length symbols)
       (case tok of None \<Rightarrow> [] | Some t \<Rightarrow> t # split_symbols rest)"
proof (induction tok rest symbols rule: collect_symbols.induct)
  case (1 tok rest symbols)
  show ?case
  proof (cases tok)
    case None
    then show ?thesis by (subst collect_symbols.simps) simp
  next
    case (Some t)
    obtain tok' rest' where w: "wcstok rest = (tok', rest')" by (cases "wcstok rest")
    show ?thesis
    proof (cases "length symbols < MAX_SYMBOLS")
      case False
      with Some show ?thesis by (subst collect_symbols.simps) simp
    next
      case True
      from w have w': "(tok', rest') = wcstok rest" by simp
      note ih = 1[OF Some True w']
      have sp: "split_symbols rest = (case tok' of None \<Rightarrow> [] | Some t' \<Rightarrow> t' # split_symbols rest')"
        using w by (cases tok') (simp_all add: split_symbols_None split_symbols_Some)
      from True obtain d where d: "MAX_SYMBOLS - length symbols = Suc d"
        by (cases "MAX_SYMBOLS - length symbols") simp_all
      then have d': "MAX_SYMBOLS - Suc (length symbols) = d" by simp
      show ?thesis
        by (subst collect_symbols.simps) (simp add: Some True w ih sp d d')
    qed
  qed
qed

lemma word_symbols_eq: "word_symbols s = take MAX_SYMBOLS (split_symbols s)"
proof -
  obtain tok rest where w: "wcstok s = (tok, rest)" by (cases "wcstok s")
  then show ?thesis
    by (cases tok) (simp_all add: word_symbols_def collect_symbols_eq split_symbols_None split_symbols_Some)
qed

section \<open>The merge pass on symbol sequences\<close>

lemma merge_loop_eq:
  "merge_loop bp symb rest nt first =
     append_symbols nt first
       (merge_syms bp (case symb of None \<Rightarrow> [] | Some s \<Rightarrow> s # split_symbols rest))"
proof (induction bp symb rest nt first rule: merge_loop.induct)
  case (1 bp symb rest nt first)
  show ?case
  proof (cases symb)
    case None
    then show ?thesis by (subst merge_loop.simps) simp
  next
    case (Some s)
    obtain nxt rest1 where w: "wcstok rest = (nxt, rest1)" by (cases "wcstok rest")
    then have w': "(nxt, rest1) = wcstok rest" by simp
    show ?thesis
    proof (cases nxt)
      case None
      have sp: "split_symbols rest = []"
        using w None by (simp add: split_symbols_None)
      show ?thesis
      proof (cases "append_symbol nt first s")
        case (Inl e)
        with Some None w sp show ?thesis by (subst merge_loop.simps) simp
      next
        case (Inr b)
        note ih = 1(1)[OF Some w' None Inr]
        with Some None w sp Inr show ?thesis by (subst merge_loop.simps) simp
      qed
    next
      case (Some n)
      note nx = this
      have sp: "split_symbols rest = n # split_symbols rest1"
        using w nx by (simp add: split_symbols_Some)
      show ?thesis
      proof (cases "swprintf MAX_PAIR_LEN (fmt_ls_sp_ls s n) = bp")
        case True
        then have pk: "pair_key s n = bp" by (simp add: pair_key_def)
        obtain s2 rest2 where w2: "wcstok rest1 = (s2, rest2)" by (cases "wcstok rest1")
        then have w2': "(s2, rest2) = wcstok rest1" by simp
        have sp2: "split_symbols rest1 = (case s2 of None \<Rightarrow> [] | Some t \<Rightarrow> t # split_symbols rest2)"
          using w2 by (cases s2) (simp_all add: split_symbols_None split_symbols_Some)
        show ?thesis
        proof (cases "append_symbol nt first (swprintf MAX_TOKEN_LEN (fmt_ls_ls s n))")
          case (Inl e)
          with \<open>symb = Some s\<close> nx w sp pk True show ?thesis
            by (subst merge_loop.simps) (simp add: merged_symbol_def)
        next
          case (Inr b)
          note ih = 1(2)[OF \<open>symb = Some s\<close> w' nx True Inr w2']
          with \<open>symb = Some s\<close> nx w sp pk True Inr w2 sp2 show ?thesis
            by (subst merge_loop.simps) (simp add: merged_symbol_def)
        qed
      next
        case False
        then have pk: "pair_key s n \<noteq> bp" by (simp add: pair_key_def)
        show ?thesis
        proof (cases "append_symbol nt first s")
          case (Inl e)
          with \<open>symb = Some s\<close> nx w sp pk False show ?thesis
            by (subst merge_loop.simps) simp
        next
          case (Inr b)
          note ih = 1(3)[OF \<open>symb = Some s\<close> w' nx False Inr]
          with \<open>symb = Some s\<close> nx w sp pk False Inr show ?thesis
            by (subst merge_loop.simps) simp
        qed
      qed
    qed
  qed
qed

lemma append_symbols_False:
  "length nt < MAX_TOKEN_LEN \<Longrightarrow>
   append_symbols nt False xs =
     (if length (nt @ concat (map (\<lambda>y. SP # y) xs)) < MAX_TOKEN_LEN
      then Inr (nt @ concat (map (\<lambda>y. SP # y) xs)) else Inl BufferOverflow)"
proof (induction xs arbitrary: nt)
  case Nil
  then show ?case by simp
next
  case (Cons x xs)
  show ?case
  proof (cases "length nt + 1 + length x < MAX_TOKEN_LEN")
    case True
    then have a: "append_symbol nt False x = Inr (nt @ SP # x)"
      by (simp add: append_symbol_def wcscat_def)
    from True have "length (nt @ SP # x) < MAX_TOKEN_LEN" by simp
    from Cons.IH[OF this] a show ?thesis by simp
  next
    case False
    then have "append_symbol nt False x = Inl BufferOverflow"
      by (simp add: append_symbol_def wcscat_def)
    with False show ?thesis by simp
  qed
qed

lemma append_symbols_first:
  "append_symbols [] True xs =
     (if length (join_symbols xs) < MAX_TOKEN_LEN then Inr (join_symbols xs) else Inl BufferOverflow)"
proof (cases xs)
  case Nil
  then show ?thesis by (simp add: MAX_TOKEN_LEN_def)
next
  case (Cons x ys)
  show ?thesis
  proof (cases "length x < MAX_TOKEN_LEN")
    case True
    then have "append_symbol [] True x = Inr x"
      by (simp add: append_symbol_def wcscat_def)
    with True Cons show ?thesis by (simp add: append_symbols_False)
  next
    case False
    then have "append_symbol [] True x = Inl BufferOverflow"
      by (simp add: append_symbol_def wcscat_def)
    with False Cons show ?thesis by simp
  qed
qed

lemma merge_token_eq:
  "merge_token bp t =
     (if length (join_symbols (merge_syms bp (split_symbols t))) < MAX_TOKEN_LEN
      then Inr (join_symbols (merge_syms bp (split_symbols t))) else Inl BufferOverflow)"
proof -
  obtain symb rest where w: "wcstok t = (symb, rest)" by (cases "wcstok t")
  then have "split_symbols t = (case symb of None \<Rightarrow> [] | Some s \<Rightarrow> s # split_symbols rest)"
    by (cases symb) (simp_all add: split_symbols_None split_symbols_Some)
  with w show ?thesis
    by (simp add: merge_token_def merge_loop_eq append_symbols_first)
qed

lemma merged_symbol_is_symbol: "is_symbol a \<Longrightarrow> is_symbol b \<Longrightarrow> is_symbol (merged_symbol a b)"
  by (cases a) (auto simp: is_symbol_def merged_symbol_def swprintf_def fmt_ls_ls_def
      MAX_TOKEN_LEN_def dest: in_set_takeD)

lemma merge_syms_symbols:
  "\<forall>x\<in>set xs. is_symbol x \<Longrightarrow> \<forall>x\<in>set (merge_syms bp xs). is_symbol x"
  by (induction bp xs rule: merge_syms.induct) (auto simp: merged_symbol_is_symbol)

lemma length_merge_syms: "length (merge_syms bp xs) + fires bp xs = length xs"
  by (induction bp xs rule: merge_syms.induct) auto

lemma fires_0_merge_syms: "fires bp xs = 0 \<Longrightarrow> merge_syms bp xs = xs"
  by (induction bp xs rule: merge_syms.induct) (auto split: if_splits)

lemma split_merge_token:
  assumes "merge_token bp t = Inr t'"
  shows "split_symbols t' = merge_syms bp (split_symbols t)"
proof -
  from assms have t': "t' = join_symbols (merge_syms bp (split_symbols t))"
    by (simp add: merge_token_eq split: if_splits)
  have "\<forall>x\<in>set (split_symbols t). is_symbol x"
    by (simp add: split_symbols_are_symbols)
  then have "\<forall>x\<in>set (merge_syms bp (split_symbols t)). is_symbol x"
    by (rule merge_syms_symbols)
  then show ?thesis
    unfolding t' by (rule split_join_symbols)
qed

lemma merge_vocab_rel:
  "merge_vocab bp v = Inr v' \<Longrightarrow>
   list_all2 (\<lambda>e e'. merge_token bp (token e) = Inr (token e') \<and> id_v e' = id_v e \<and> freq e' = freq e) v v'"
proof (induction v arbitrary: v')
  case Nil
  then show ?case by simp
next
  case (Cons e es)
  from Cons.prems obtain u es' where u: "merge_token bp (token e) = Inr u"
    and es': "merge_vocab bp es = Inr es'" and v': "v' = e\<lparr>token := u\<rparr> # es'"
    by (auto split: sum.splits)
  from Cons.IH[OF es'] u v' show ?case by simp
qed

lemma wcstok_lengths:
  assumes "wcstok s = (Some a, r)"
  shows "length a + length r < length s \<or> (r = [] \<and> length a \<le> length s)"
proof -
  let ?s1 = "dropWhile (\<lambda>c. c = SP) s"
  let ?d = "dropWhile (\<lambda>c. c \<noteq> SP) ?s1"
  from assms have a: "a = takeWhile (\<lambda>c. c \<noteq> SP) ?s1" and r: "r = drop 1 ?d"
    by (auto simp: wcstok_def Let_def split: if_splits)
  have "length (takeWhile (\<lambda>c. c \<noteq> SP) ?s1 @ ?d) = length ?s1"
    by (simp only: takeWhile_dropWhile_id)
  then have e: "length a + length ?d = length ?s1"
    unfolding a by (simp only: length_append)
  have l: "length ?s1 \<le> length s"
    by (rule length_dropWhile_le)
  have lr: "length r = length ?d - 1"
    unfolding r by (simp only: length_drop)
  show ?thesis
  proof (cases "length ?d = 0")
    case True
    with lr have "length r = 0" by linarith
    then have "r = []" by (simp only: length_0_conv)
    moreover from True e l have "length a \<le> length s" by linarith
    ultimately show ?thesis by blast
  next
    case False
    with lr e l have "length a + length r < length s" by linarith
    then show ?thesis by blast
  qed
qed

lemma length_seps_split_symbols:
  "length (concat (map (\<lambda>y. SP # y) (split_symbols s))) \<le> Suc (length s)"
proof (induction s rule: split_symbols.induct)
  case (1 s)
  obtain tok r where w: "wcstok s = (tok, r)" by (cases "wcstok s")
  show ?case
  proof (cases tok)
    case None
    with w show ?thesis by (simp add: split_symbols_None)
  next
    case (Some a)
    from w have "(tok, r) = wcstok s" by simp
    note ih = 1[OF this Some]
    from w Some have ss: "split_symbols s = a # split_symbols r"
      by (simp add: split_symbols_Some)
    from w Some wcstok_lengths[of s a r]
    have "length a + length r < length s \<or> (r = [] \<and> length a \<le> length s)" by simp
    then show ?thesis
    proof
      assume "length a + length r < length s"
      with ih ss show ?thesis by simp
    next
      assume "r = [] \<and> length a \<le> length s"
      with ss show ?thesis by (simp add: split_symbols_Nil)
    qed
  qed
qed

lemma length_join_symbols: "length (join_symbols xs) = length (concat (map (\<lambda>y. SP # y) xs)) - 1"
  by (cases xs) simp_all

lemma length_join_split_symbols: "length (join_symbols (split_symbols s)) \<le> length s"
  using length_seps_split_symbols[of s] by (simp add: length_join_symbols)

lemma length_merged_symbol: "length (merged_symbol a b) \<le> length a + length b"
  by (simp add: merged_symbol_def swprintf_def fmt_ls_ls_def)

lemma length_seps_merge_syms:
  "length (concat (map (\<lambda>y. SP # y) (merge_syms bp xs))) \<le> length (concat (map (\<lambda>y. SP # y) xs))"
proof (induction bp xs rule: merge_syms.induct)
  case (1 bp a b rest)
  show ?case
  proof (cases "pair_key a b = bp")
    case True
    with 1(1) length_merged_symbol[of a b] show ?thesis by simp
  next
    case False
    with 1(2) show ?thesis by simp
  qed
qed simp_all

lemma merge_token_returns:
  assumes "length t < MAX_TOKEN_LEN"
  shows "\<exists>t'. merge_token bp t = Inr t'"
proof -
  have "length (join_symbols (merge_syms bp (split_symbols t)))
      \<le> length (join_symbols (split_symbols t))"
    using length_seps_merge_syms[of bp "split_symbols t"] by (simp add: length_join_symbols)
  also have "\<dots> \<le> length t" by (rule length_join_split_symbols)
  finally show ?thesis using assms by (simp add: merge_token_eq)
qed

lemma merge_vocab_returns:
  "\<forall>e\<in>set v. length (token e) < MAX_TOKEN_LEN \<Longrightarrow> \<exists>v'. merge_vocab bp v = Inr v'"
proof (induction v)
  case Nil
  show ?case by simp
next
  case (Cons e es)
  then obtain es' where es': "merge_vocab bp es = Inr es'" by auto
  from Cons.prems obtain u where "merge_token bp (token e) = Inr u"
    using merge_token_returns[of "token e" bp] by auto
  with es' show ?case by simp
qed

text \<open>A word of 128 characters overruns \<open>new_token\<close> whatever the pair.\<close>

lemma merge_token_overflow: "merge_token bp (replicate 128 97) = Inl BufferOverflow"
proof -
  have "is_symbol (replicate 128 97)"
    by (simp add: is_symbol_def SP_def)
  then have "split_symbols (replicate 128 97) = [replicate 128 97]"
    by (rule split_symbols_symbol_end)
  then show ?thesis
    by (simp add: merge_token_eq MAX_TOKEN_LEN_def)
qed

text \<open>Rewrite rules that evaluate the definitions on wide literals.\<close>

lemma split_symbols_32: "split_symbols (32 # s) = split_symbols s"
  using split_symbols_SP[of s] by (simp add: SP_def)

lemma split_symbols_Cons:
  assumes "c \<noteq> 32"
  shows "split_symbols (c # s) =
    (c # takeWhile (\<lambda>x. x \<noteq> 32) s) # split_symbols (drop 1 (dropWhile (\<lambda>x. x \<noteq> 32) s))"
  by (rule split_symbols_Some) (simp add: wcstok_def SP_def assms)

lemma pair_key_eval: "pair_key a b = take 255 (a @ 32 # b)"
  by (simp add: pair_key_def swprintf_def fmt_ls_sp_ls_def MAX_PAIR_LEN_def SP_def)

lemma merged_symbol_eval: "merged_symbol a b = take 127 (a @ b)"
  by (simp add: merged_symbol_def swprintf_def fmt_ls_ls_def MAX_TOKEN_LEN_def)

lemma join_symbols_eval: "join_symbols (x # xs) = x @ concat (map (\<lambda>y. 32 # y) xs)"
  by (simp add: SP_def)

lemmas eval_simps = wstr_def split_symbols_32 split_symbols_Cons split_symbols_Nil
  pair_key_eval merged_symbol_eval merge_token_eq MAX_TOKEN_LEN_def

section \<open>Counts held by the pair table\<close>

lemma bump_chain_None: "bump_chain p c = None \<longleftrightarrow> (\<forall>e\<in>set c. pair e \<noteq> p)"
  by (induction c) auto

lemma chain_count_other:
  "\<forall>e\<in>set c. pair e \<noteq> k \<Longrightarrow> chain_count k c = 0"
  by (induction c) (simp_all add: chain_count_def)

lemma chain_count_bump:
  "chain_count k (case bump_chain p c of Some c' \<Rightarrow> c' | None \<Rightarrow> \<lparr>pair = p, count = 1, id_p = i\<rparr> # c)
     = chain_count k c + (if p = k then 1 else 0)"
proof (induction c)
  case Nil
  show ?case by (simp add: chain_count_def)
next
  case (Cons e es)
  show ?case
  proof (cases "pair e = p")
    case True
    then show ?thesis by (simp add: chain_count_def)
  next
    case False
    show ?thesis
    proof (cases "bump_chain p es")
      case None
      then have "chain_count p (e # es) = 0"
        using False by (intro chain_count_other) (simp add: bump_chain_None)
      with None False show ?thesis by (auto simp: chain_count_def)
    next
      case (Some es')
      with False Cons show ?thesis by (auto simp: chain_count_def)
    qed
  qed
qed

lemma add_pair_apply:
  "add_pair m p i j =
     (if j = hash p
      then (case bump_chain p (m j) of Some c' \<Rightarrow> c' | None \<Rightarrow> \<lparr>pair = p, count = 1, id_p = i\<rparr> # m j)
      else m j)"
  by (simp add: add_pair_def Let_def split: option.splits)

lemma pair_count_add_pair:
  "pair_count (add_pair m p i) k = pair_count m k + (if p = k then 1 else 0)"
proof (cases "hash k = hash p")
  case True
  have "pair_count (add_pair m p i) k =
      chain_count k (case bump_chain p (m (hash p)) of Some c' \<Rightarrow> c'
        | None \<Rightarrow> \<lparr>pair = p, count = 1, id_p = i\<rparr> # m (hash p))"
    unfolding pair_count_def add_pair_apply True by simp
  also have "\<dots> = chain_count k (m (hash p)) + (if p = k then 1 else 0)"
    by (rule chain_count_bump)
  finally show ?thesis
    unfolding pair_count_def True .
next
  case False
  then have pk: "p \<noteq> k" by blast
  from False have "add_pair m p i (hash k) = m (hash k)"
    unfolding add_pair_apply by simp
  with pk show ?thesis
    unfolding pair_count_def by simp
qed

lemma pair_count_add_pair_loop:
  "pair_count (add_pair_loop j f p i m) k = pair_count m k + (if p = k then max 0 (f - j) else 0)"
proof (induction j f p i m rule: add_pair_loop.induct)
  case (1 j f p i m)
  show ?case
  proof (cases "j < f")
    case True
    from 1[OF True] True show ?thesis
      by (subst add_pair_loop.simps) (simp add: pair_count_add_pair)
  next
    case False
    then show ?thesis by (subst add_pair_loop.simps) simp
  qed
qed

lemma pair_count_count_pairs:
  "pair_count (count_pairs symbols f i m) k = pair_count m k + int (occurrences k symbols) * max 0 f"
proof (induction symbols f i m rule: count_pairs.induct)
  case (1 a b rest f i m)
  then show ?case
    by (simp add: pair_count_add_pair_loop pair_key_def algebra_simps)
qed simp_all

lemma pair_count_count_vocab:
  "pair_count (count_vocab v i m) k =
     pair_count m k + (\<Sum>e\<leftarrow>v. int (occurrences k (word_symbols (token e))) * max 0 (freq e))"
  by (induction v i m rule: count_vocab.induct) (simp_all add: pair_count_count_pairs)

lemma pair_count_create: "pair_count create_bpe_hashmap k = 0"
  by (simp add: pair_count_def create_bpe_hashmap_def chain_count_def)

lemma occurrences_snoc:
  "occurrences k (xs @ [y, z]) = occurrences k (xs @ [y]) + (if pair_key y z = k then 1 else 0)"
  by (induction xs rule: induct_list012) simp_all

lemma occurrences_replicate: "pair_key a a \<noteq> k \<Longrightarrow> occurrences k (replicate n a) = 0"
proof (induction n)
  case 0
  show ?case by simp
next
  case (Suc n)
  then show ?case by (cases n) simp_all
qed

lemma occurrences_replicate_snoc:
  "pair_key a a \<noteq> k \<Longrightarrow> pair_key a y \<noteq> k \<Longrightarrow> occurrences k (replicate n a @ [y]) = 0"
proof (induction n)
  case 0
  show ?case by simp
next
  case (Suc n)
  then show ?case by (cases n) simp_all
qed

section \<open>Claims about the merge pass\<close>




text \<open>
  C3 as stated fails: in the entry \<open>a b a b\<close> the pair \<open>(a, b)\<close> fires twice and the
  entry loses two symbols, not one.
\<close>

theorem merge_pass_symbol_count_counterexample:
  "merge_vocab (wstr ''a b'') [\<lparr>token = wstr ''a b a b'', id_v = 0, freq = 1\<rparr>]
     = Inr [\<lparr>token = wstr ''ab ab'', id_v = 0, freq = 1\<rparr>] \<and>
   0 < fires (wstr ''a b'') (split_symbols (wstr ''a b a b'')) \<and>
   length (split_symbols (wstr ''a b a b'')) = 4 \<and>
   length (split_symbols (wstr ''ab ab'')) = 2"
  by (simp add: eval_simps SP_def)

text \<open>
  C3, amended. A merge pass that completes keeps the number of entries and every
  entry's id and frequency, and every entry loses as many symbols as the merge fires in
  it (none where it does not fire). The pass completes when every surface form is
  shorter than \<open>MAX_TOKEN_LEN\<close>.
\<close>

theorem merge_pass_conservation:
  "(merge_vocab bp v = Inr v' \<longrightarrow>
      length v' = length v \<and> map id_v v' = map id_v v \<and> map freq v' = map freq v \<and>
      (\<forall>i<length v.
         length (split_symbols (token (v' ! i))) + fires bp (split_symbols (token (v ! i)))
           = length (split_symbols (token (v ! i)))))
   \<and> ((\<forall>e\<in>set v. length (token e) < MAX_TOKEN_LEN) \<longrightarrow> (\<exists>w. merge_vocab bp v = Inr w))"
proof (intro conjI impI allI)
  assume a: "merge_vocab bp v = Inr v'"
  note rel = merge_vocab_rel[OF a]
  from rel show len: "length v' = length v"
    by (simp add: list_all2_lengthD)
  from rel show "map id_v v' = map id_v v"
    by (induction v v' rule: list_all2_induct) simp_all
  from rel show "map freq v' = map freq v"
    by (induction v v' rule: list_all2_induct) simp_all
  fix i assume i: "i < length v"
  with rel have "merge_token bp (token (v ! i)) = Inr (token (v' ! i))"
    by (simp add: list_all2_conv_all_nth)
  then have "split_symbols (token (v' ! i)) = merge_syms bp (split_symbols (token (v ! i)))"
    by (rule split_merge_token)
  then show "length (split_symbols (token (v' ! i))) + fires bp (split_symbols (token (v ! i)))
           = length (split_symbols (token (v ! i)))"
    by (simp add: length_merge_syms)
next
  assume "\<forall>e\<in>set v. length (token e) < MAX_TOKEN_LEN"
  then show "\<exists>w. merge_vocab bp v = Inr w" by (rule merge_vocab_returns)
qed

theorem merge_pass_conservation_witness:
  "merge_vocab (wstr ''a b'') abab_store = Inr abab_merged \<and>
   length abab_merged = length abab_store \<and>
   map id_v abab_merged = map id_v abab_store \<and>
   map freq abab_merged = map freq abab_store \<and>
   length (split_symbols (token (abab_merged ! 0))) + fires (wstr ''a b'') (split_symbols (token (abab_store ! 0)))
     = length (split_symbols (token (abab_store ! 0))) \<and>
   length (split_symbols (token (abab_merged ! 1))) + fires (wstr ''a b'') (split_symbols (token (abab_store ! 1)))
     = length (split_symbols (token (abab_store ! 1))) \<and>
   fires (wstr ''a b'') (split_symbols (token (abab_store ! 0))) = 2 \<and>
   fires (wstr ''a b'') (split_symbols (token (abab_store ! 1))) = 0"
proof -
  have m: "merge_vocab (wstr ''a b'') abab_store = Inr abab_merged"
    by (simp add: abab_store_def abab_merged_def eval_simps SP_def)
  have s: "\<forall>e\<in>set abab_store. length (token e) < MAX_TOKEN_LEN"
    by (simp add: abab_store_def eval_simps)
  have f: "fires (wstr ''a b'') (split_symbols (token (abab_store ! 0))) = 2"
    "fires (wstr ''a b'') (split_symbols (token (abab_store ! 1))) = 0"
    by (simp_all add: abab_store_def eval_simps)
  have l: "(0::nat) < length abab_store" "(1::nat) < length abab_store"
    by (simp_all add: abab_store_def)
  from merge_pass_conservation[of "wstr ''a b''" abab_store abab_merged] m s f l
  show ?thesis by blast
qed

section \<open>Claims about the counting pass\<close>

lemma split_long_token:
  "split_symbols long_token = replicate 256 (wstr ''a'') @ [wstr ''b'', wstr ''c'']"
  unfolding long_token_def
  by (rule split_join_symbols) (auto simp: is_symbol_def wstr_def SP_def)

lemma word_symbols_long_token: "word_symbols long_token = replicate 256 (wstr ''a'')"
  by (simp add: word_symbols_eq split_long_token MAX_SYMBOLS_def)

lemma occurrences_long_token:
  "occurrences (wstr ''b c'') (split_symbols long_token) = 1"
  unfolding split_long_token occurrences_snoc
  by (simp add: occurrences_replicate_snoc pair_key_eval wstr_def)

lemma occurrences_word_symbols_long_token:
  "occurrences (wstr ''b c'') (word_symbols long_token) = 0"
  unfolding word_symbols_long_token
  by (rule occurrences_replicate) (simp add: pair_key_eval wstr_def)

text \<open>
  C5 as stated fails: an entry of 258 symbols ends in the pair \<open>(b, c)\<close>, which the
  counting pass does not record.
\<close>

theorem counting_pass_counterexample:
  "pair_count (count_vocab [long_entry] 0 create_bpe_hashmap) (wstr ''b c'') = 0 \<and>
   int (occurrences (wstr ''b c'') (split_symbols (token long_entry))) * freq long_entry = 1"
proof -
  have "pair_count (count_vocab [long_entry] 0 create_bpe_hashmap) (wstr ''b c'') =
      int (occurrences (wstr ''b c'') (word_symbols long_token)) * max 0 1"
    unfolding pair_count_count_vocab by (simp add: pair_count_create long_entry_def)
  then show ?thesis
    by (simp add: occurrences_word_symbols_long_token occurrences_long_token long_entry_def)
qed

text \<open>
  C5, amended. After one counting pass over a fresh table, the count recorded for a key
  is the sum over the entries of the number of adjacent occurrences of the key among the
  first 256 symbols of the entry, times the entry's frequency (nothing for a frequency
  below 1). A symbol sequence of fewer than 2 symbols holds no pair.
\<close>

theorem counting_pass_counts:
  "pair_count (count_vocab v 0 create_bpe_hashmap) k =
     (\<Sum>e\<leftarrow>v. int (occurrences k (take MAX_SYMBOLS (split_symbols (token e)))) * max 0 (freq e))
   \<and> occurrences k [] = 0 \<and> occurrences k [a] = 0"
  unfolding pair_count_count_vocab by (simp add: pair_count_create word_symbols_eq)

text \<open>
  C10. The counting pass reads the first 256 symbols of an entry and no more: the table
  after counting an entry is the table after counting the pairs of these symbols, and the
  count of every key grows by its occurrences among them. The pass has no other result: it
  writes no message.
\<close>

theorem counting_pass_first_256_symbols:
  "word_symbols (token e) = take 256 (split_symbols (token e)) \<and>
   count_vocab (e # es) i m =
     count_vocab es (i + 1) (count_pairs (take 256 (split_symbols (token e))) (freq e) (of_nat i) m) \<and>
   pair_count (count_vocab [e] i m) k =
     pair_count m k + int (occurrences k (take 256 (split_symbols (token e)))) * max 0 (freq e)"
proof (intro conjI)
  show "word_symbols (token e) = take 256 (split_symbols (token e))"
    by (simp add: word_symbols_eq MAX_SYMBOLS_def)
  then show "count_vocab (e # es) i m =
     count_vocab es (i + 1) (count_pairs (take 256 (split_symbols (token e))) (freq e) (of_nat i) m)"
    by simp
  show "pair_count (count_vocab [e] i m) k =
     pair_count m k + int (occurrences k (take 256 (split_symbols (token e)))) * max 0 (freq e)"
    unfolding pair_count_count_vocab by (simp add: word_symbols_eq MAX_SYMBOLS_def)
qed

theorem counting_pass_first_256_symbols_witness:
  "length (split_symbols (token long_entry)) = 258 \<and>
   occurrences (wstr ''b c'') (split_symbols (token long_entry)) = 1 \<and>
   pair_count (count_vocab [long_entry] 0 create_bpe_hashmap) (wstr ''b c'') = 0"
proof -
  have o: "occurrences (wstr ''b c'') (take 256 (split_symbols (token long_entry))) = 0"
    using occurrences_word_symbols_long_token
    by (simp add: word_symbols_eq MAX_SYMBOLS_def long_entry_def)
  have "pair_count (count_vocab [long_entry] 0 create_bpe_hashmap) (wstr ''b c'') =
     pair_count create_bpe_hashmap (wstr ''b c'') +
     int (occurrences (wstr ''b c'') (take 256 (split_symbols (token long_entry)))) * max 0 (freq long_entry)"
    using counting_pass_first_256_symbols[of long_entry "[]" 0 create_bpe_hashmap "wstr ''b c''"]
    by blast
  then have "pair_count (count_vocab [long_entry] 0 create_bpe_hashmap) (wstr ''b c'') = 0"
    unfolding o by (simp add: pair_count_create)
  moreover have "length (split_symbols (token long_entry)) = 258"
    by (simp add: long_entry_def split_long_token)
  moreover have "occurrences (wstr ''b c'') (split_symbols (token long_entry)) = 1"
    by (simp add: long_entry_def occurrences_long_token)
  ultimately show ?thesis by blast
qed

section \<open>Tables built by \<open>add_pair\<close>\<close>

lemma hash_less: "hash p < HASH_SIZE"
  by (simp add: hash_def HASH_SIZE_def)

lemma bump_chain_Some:
  "bump_chain p c = Some c' \<Longrightarrow>
     map pair c' = map pair c \<and> (\<forall>e'\<in>set c'. \<exists>e\<in>set c. pair e' = pair e \<and> count e \<le> count e')"
proof (induction c arbitrary: c')
  case Nil
  then show ?case by simp
next
  case (Cons e es)
  show ?case
  proof (cases "pair e = p")
    case True
    with Cons.prems have "c' = e\<lparr>count := count e + 1\<rparr> # es" by simp
    then show ?thesis by auto
  next
    case False
    with Cons.prems obtain es' where es': "bump_chain p es = Some es'" and c': "c' = e # es'"
      by auto
    from Cons.IH[OF es'] c' show ?thesis by auto
  qed
qed

lemma table_inv_create: "table_inv create_bpe_hashmap"
  by (simp add: table_inv_def create_bpe_hashmap_def)

lemma table_inv_add_pair:
  assumes "table_inv m"
  shows "table_inv (add_pair m p i)"
  unfolding table_inv_def
proof (intro allI conjI impI ballI)
  fix j
  assume "HASH_SIZE \<le> j"
  with hash_less[of p] have "j \<noteq> hash p" by simp
  with assms \<open>HASH_SIZE \<le> j\<close> show "add_pair m p i j = []"
    by (simp add: add_pair_apply table_inv_def)
next
  fix j
  show "distinct (map pair (add_pair m p i j))"
  proof (cases "j = hash p")
    case False
    with assms show ?thesis by (simp add: add_pair_apply table_inv_def)
  next
    case True
    from assms have d: "distinct (map pair (m j))" by (simp add: table_inv_def)
    show ?thesis
    proof (cases "bump_chain p (m j)")
      case None
      then have "p \<notin> pair ` set (m j)" by (auto simp: bump_chain_None)
      with d None True show ?thesis by (simp add: add_pair_apply)
    next
      case (Some c')
      with bump_chain_Some[OF Some] d True show ?thesis by (simp add: add_pair_apply)
    qed
  qed
next
  fix j e
  assume e: "e \<in> set (add_pair m p i j)"
  from assms have old: "\<forall>x\<in>set (m j). hash (pair x) = j \<and> 0 < count x"
    by (simp add: table_inv_def)
  have "hash (pair e) = j \<and> 0 < count e"
  proof (cases "j = hash p")
    case False
    with e old show ?thesis by (simp add: add_pair_apply)
  next
    case True
    show ?thesis
    proof (cases "bump_chain p (m j)")
      case None
      with e True have "e = \<lparr>pair = p, count = 1, id_p = i\<rparr> \<or> e \<in> set (m j)"
        by (simp add: add_pair_apply)
      with old True show ?thesis by auto
    next
      case (Some c')
      with e True have "e \<in> set c'" by (simp add: add_pair_apply)
      with bump_chain_Some[OF Some] obtain x where "x \<in> set (m j)" "pair e = pair x" "count x \<le> count e"
        by blast
      with old show ?thesis by fastforce
    qed
  qed
  then show "hash (pair e) = j" and "0 < count e" by simp_all
qed

lemma reachable_table_inv: "reachable m \<Longrightarrow> table_inv m"
  by (induction rule: reachable.induct) (simp_all add: table_inv_create table_inv_add_pair)

lemma upt_split: "j < n \<Longrightarrow> [0..<n] = [0..<j] @ j # [Suc j..<n]"
  using upt_add_eq_append[of 0 j "n - j"] by (simp add: upt_conv_Cons)

lemma all_entries_split:
  "j < HASH_SIZE \<Longrightarrow>
   all_entries m = concat (map m [0..<j]) @ m j @ concat (map m [Suc j..<HASH_SIZE])"
  by (simp add: all_entries_def upt_split[of j HASH_SIZE])

lemma all_entries_upd:
  assumes "j < HASH_SIZE"
  shows "all_entries (m(j := c)) = concat (map m [0..<j]) @ c @ concat (map m [Suc j..<HASH_SIZE])"
proof -
  have "map (m(j := c)) [0..<j] = map m [0..<j]" by simp
  moreover have "map (m(j := c)) [Suc j..<HASH_SIZE] = map m [Suc j..<HASH_SIZE]" by simp
  ultimately show ?thesis
    using all_entries_split[OF assms, of "m(j := c)"] by simp
qed

lemma set_all_entries: "set (all_entries m) = (\<Union>i<HASH_SIZE. set (m i))"
  by (auto simp: all_entries_def)

lemma add_pair_fun_upd:
  "add_pair m p i =
     m(hash p := (case bump_chain p (m (hash p)) of Some c' \<Rightarrow> c'
                  | None \<Rightarrow> \<lparr>pair = p, count = 1, id_p = i\<rparr> # m (hash p)))"
  by (simp add: add_pair_def Let_def split: option.splits)

lemma key_in_table:
  assumes "table_inv m"
  shows "p \<in> pair ` set (all_entries m) \<longleftrightarrow> bump_chain p (m (hash p)) \<noteq> None"
proof
  assume "p \<in> pair ` set (all_entries m)"
  then obtain i e where i: "i < HASH_SIZE" and e: "e \<in> set (m i)" and p: "pair e = p"
    by (auto simp: set_all_entries)
  from assms e have "hash (pair e) = i" by (simp add: table_inv_def)
  with e p show "bump_chain p (m (hash p)) \<noteq> None"
    by (auto simp: bump_chain_None)
next
  assume "bump_chain p (m (hash p)) \<noteq> None"
  then obtain e where "e \<in> set (m (hash p))" "pair e = p"
    by (auto simp: bump_chain_None)
  with hash_less[of p] show "p \<in> pair ` set (all_entries m)"
    unfolding set_all_entries by blast
qed

lemma filter_key_distinct:
  "distinct (map pair c) \<Longrightarrow> length (filter (\<lambda>e. pair e = k) c) \<le> 1"
proof (induction c)
  case Nil
  show ?case by simp
next
  case (Cons e es)
  show ?case
  proof (cases "pair e = k")
    case True
    with Cons.prems have "\<forall>x\<in>set es. pair x \<noteq> k"
      by (metis distinct.simps(2) image_eqI list.simps(9) set_map)
    then have "filter (\<lambda>e. pair e = k) es = []"
      by (simp add: filter_empty_conv)
    with True show ?thesis by simp
  next
    case False
    with Cons show ?thesis by simp
  qed
qed

lemma filter_key_all_entries:
  assumes "table_inv m"
  shows "filter (\<lambda>e. pair e = k) (all_entries m) = filter (\<lambda>e. pair e = k) (m (hash k))"
proof -
  have other: "filter (\<lambda>e. pair e = k) (concat (map m is)) = []" if "hash k \<notin> set is" for "is"
  proof -
    have "\<forall>i\<in>set is. \<forall>e\<in>set (m i). pair e \<noteq> k"
    proof (intro ballI)
      fix i e assume "i \<in> set is" "e \<in> set (m i)"
      with assms have "hash (pair e) = i" by (simp add: table_inv_def)
      with \<open>i \<in> set is\<close> that show "pair e \<noteq> k" by auto
    qed
    then show ?thesis by (auto simp: filter_empty_conv)
  qed
  have "hash k \<notin> set [0..<hash k]" "hash k \<notin> set [Suc (hash k)..<HASH_SIZE]" by simp_all
  then show ?thesis
    using all_entries_split[OF hash_less, of m k] by (simp add: other)
qed

lemma key_held_once:
  assumes "table_inv m"
  shows "length (filter (\<lambda>e. pair e = k) (all_entries m)) \<le> 1"
proof -
  from assms have "distinct (map pair (m (hash k)))" by (simp add: table_inv_def)
  then show ?thesis
    unfolding filter_key_all_entries[OF assms] by (rule filter_key_distinct)
qed

lemma chain_count_member:
  "distinct (map pair c) \<Longrightarrow> e \<in> set c \<Longrightarrow> chain_count (pair e) c = count e"
proof (induction c)
  case Nil
  then show ?case by simp
next
  case (Cons x xs)
  show ?case
  proof (cases "e = x")
    case True
    then show ?thesis by (simp add: chain_count_def)
  next
    case False
    with Cons.prems have "e \<in> set xs" by simp
    with Cons.prems have "pair x \<noteq> pair e" by auto
    with Cons \<open>e \<in> set xs\<close> show ?thesis by (simp add: chain_count_def)
  qed
qed

lemma pair_count_member:
  assumes "table_inv m" "e \<in> set (all_entries m)"
  shows "pair_count m (pair e) = count e"
proof -
  from assms(2) obtain i where "i < HASH_SIZE" "e \<in> set (m i)"
    by (auto simp: set_all_entries)
  with assms(1) have "e \<in> set (m (hash (pair e)))" "distinct (map pair (m (hash (pair e))))"
    by (auto simp: table_inv_def)
  then show ?thesis
    unfolding pair_count_def by (intro chain_count_member)
qed

lemma length_all_entries_add_pair:
  "length (all_entries (add_pair m p i)) =
     length (all_entries m) + (if bump_chain p (m (hash p)) = None then 1 else 0)"
proof (cases "bump_chain p (m (hash p))")
  case None
  then show ?thesis
    unfolding add_pair_fun_upd all_entries_upd[OF hash_less] all_entries_split[OF hash_less, of m p]
    by simp
next
  case (Some c')
  from bump_chain_Some[OF Some] have "length c' = length (m (hash p))"
    by (metis length_map)
  with Some show ?thesis
    unfolding add_pair_fun_upd all_entries_upd[OF hash_less] all_entries_split[OF hash_less, of m p]
    by simp
qed

lemma scan_chain_append: "scan_chain (xs @ ys) best = scan_chain ys (scan_chain xs best)"
  by (induction xs best rule: scan_chain.induct) simp_all

lemma fold_scan_chain:
  "fold (\<lambda>i best. scan_chain (m i) best) is best = scan_chain (concat (map m is)) best"
  by (induction "is" arbitrary: best) (simp_all add: scan_chain_append)

lemma find_most_frequent_pair_all_entries:
  "find_most_frequent_pair m = scan_chain (all_entries m) ([], 0)"
  by (simp add: find_most_frequent_pair_def all_entries_def fold_scan_chain)

lemma scan_chain_result:
  "(scan_chain es (bp, bc) = (bp, bc) \<and> (\<forall>e\<in>set es. count e \<le> bc)) \<or>
   (\<exists>xs e ys. es = xs @ e # ys \<and> scan_chain es (bp, bc) = (pair e, count e) \<and> bc < count e \<and>
      (\<forall>x\<in>set xs. count x < count e) \<and> (\<forall>y\<in>set ys. count y \<le> count e))"
proof (induction es arbitrary: bp bc)
  case Nil
  show ?case by simp
next
  case (Cons a es)
  show ?case
  proof (cases "count a > bc")
    case True
    from Cons[of "pair a" "count a"] show ?thesis
    proof
      assume h: "scan_chain es (pair a, count a) = (pair a, count a) \<and> (\<forall>e\<in>set es. count e \<le> count a)"
      have "a # es = [] @ a # es \<and> scan_chain (a # es) (bp, bc) = (pair a, count a) \<and> bc < count a \<and>
          (\<forall>x\<in>set []. count x < count a) \<and> (\<forall>y\<in>set es. count y \<le> count a)"
        using True h by simp
      then show ?thesis by blast
    next
      assume "\<exists>xs e ys. es = xs @ e # ys \<and> scan_chain es (pair a, count a) = (pair e, count e) \<and>
          count a < count e \<and> (\<forall>x\<in>set xs. count x < count e) \<and> (\<forall>y\<in>set ys. count y \<le> count e)"
      then obtain xs e ys where es: "es = xs @ e # ys"
        and r: "scan_chain es (pair a, count a) = (pair e, count e)"
        and lt: "count a < count e"
        and xs: "\<forall>x\<in>set xs. count x < count e" and ys: "\<forall>y\<in>set ys. count y \<le> count e"
        by blast
      have "a # es = (a # xs) @ e # ys \<and> scan_chain (a # es) (bp, bc) = (pair e, count e) \<and>
          bc < count e \<and> (\<forall>x\<in>set (a # xs). count x < count e) \<and> (\<forall>y\<in>set ys. count y \<le> count e)"
        using True es r lt xs ys by simp
      then show ?thesis by blast
    qed
  next
    case False
    from Cons[of bp bc] show ?thesis
    proof
      assume "scan_chain es (bp, bc) = (bp, bc) \<and> (\<forall>e\<in>set es. count e \<le> bc)"
      with False show ?thesis by simp
    next
      assume "\<exists>xs e ys. es = xs @ e # ys \<and> scan_chain es (bp, bc) = (pair e, count e) \<and>
          bc < count e \<and> (\<forall>x\<in>set xs. count x < count e) \<and> (\<forall>y\<in>set ys. count y \<le> count e)"
      then obtain xs e ys where es: "es = xs @ e # ys"
        and r: "scan_chain es (bp, bc) = (pair e, count e)"
        and lt: "bc < count e"
        and xs: "\<forall>x\<in>set xs. count x < count e" and ys: "\<forall>y\<in>set ys. count y \<le> count e"
        by blast
      have "a # es = (a # xs) @ e # ys \<and> scan_chain (a # es) (bp, bc) = (pair e, count e) \<and>
          bc < count e \<and> (\<forall>x\<in>set (a # xs). count x < count e) \<and> (\<forall>y\<in>set ys. count y \<le> count e)"
        using False es r lt xs ys by simp
      then show ?thesis by blast
    qed
  qed
qed

section \<open>Evaluating a table\<close>

lemma create_sparse: "create_bpe_hashmap = sparse []"
  by (simp add: create_bpe_hashmap_def sparse_def fun_eq_iff)

lemma map_of_sparse_upd: "map_of (sparse_upd k c xs) = (map_of xs)(k \<mapsto> c)"
  by (induction k c xs rule: sparse_upd.induct) (auto simp: fun_eq_iff)

lemma sparse_fun_upd: "(sparse xs)(k := c) = sparse (sparse_upd k c xs)"
  by (simp add: sparse_def fun_eq_iff map_of_sparse_upd)

lemma add_pair_sparse:
  "add_pair (sparse xs) p i =
     sparse (sparse_upd (hash p)
       (case bump_chain p (sparse xs (hash p)) of Some c' \<Rightarrow> c'
        | None \<Rightarrow> \<lparr>pair = p, count = 1, id_p = i\<rparr> # sparse xs (hash p)) xs)"
  unfolding add_pair_fun_upd sparse_fun_upd ..

lemma concat_map_empty: "\<forall>i\<in>set is. f i = [] \<Longrightarrow> concat (map f is) = []"
  by (induction "is") simp_all

lemma concat_sparse_range:
  "sorted_wrt (<) (map fst xs) \<Longrightarrow> \<forall>k\<in>set (map fst xs). lo \<le> k \<and> k < hi \<Longrightarrow>
   concat (map (sparse xs) [lo..<hi]) = concat (map snd xs)"
proof (induction xs arbitrary: lo)
  case Nil
  show ?case by (simp add: sparse_def concat_map_empty)
next
  case (Cons x xs)
  obtain k c where x: "x = (k, c)" by (cases x)
  from Cons.prems x have k: "lo \<le> k" "k < hi" and gt: "\<forall>j\<in>set (map fst xs). k < j"
    and srt: "sorted_wrt (<) (map fst xs)" and bnd: "\<forall>j\<in>set (map fst xs). Suc k \<le> j \<and> j < hi"
    by auto
  have split: "[lo..<hi] = [lo..<k] @ k # [Suc k..<hi]"
    using k by (metis le_Suc_ex less_imp_le_nat upt_add_eq_append upt_conv_Cons)
  have before: "concat (map (sparse (x # xs)) [lo..<k]) = []"
  proof (rule concat_map_empty, rule ballI)
    fix i assume "i \<in> set [lo..<k]"
    then have "i < k" by simp
    with gt have "i \<notin> fst ` set xs" by auto
    then have "map_of xs i = None" by (simp add: map_of_eq_None_iff)
    with \<open>i < k\<close> x show "sparse (x # xs) i = []" by (simp add: sparse_def)
  qed
  have at: "sparse (x # xs) k = c" using x by (simp add: sparse_def)
  have m: "map (sparse (x # xs)) [Suc k..<hi] = map (sparse xs) [Suc k..<hi]"
    using x by (simp add: sparse_def)
  have after: "concat (map (sparse (x # xs)) [Suc k..<hi]) = concat (map snd xs)"
    unfolding m by (rule Cons.IH[OF srt bnd])
  show ?case
    unfolding split using before at after x by simp
qed

lemma all_entries_sparse:
  "sorted_wrt (<) (map fst xs) \<Longrightarrow> \<forall>k\<in>set (map fst xs). k < HASH_SIZE \<Longrightarrow>
   all_entries (sparse xs) = concat (map snd xs)"
  unfolding all_entries_def by (rule concat_sparse_range) simp_all

lemma find_most_frequent_pair_sparse:
  "sorted_wrt (<) (map fst xs) \<Longrightarrow> \<forall>k\<in>set (map fst xs). k < HASH_SIZE \<Longrightarrow>
   find_most_frequent_pair (sparse xs) = scan_chain (concat (map snd xs)) ([], 0)"
  by (simp add: find_most_frequent_pair_all_entries all_entries_sparse)

lemma add_pair_loop_step: "k < f \<Longrightarrow> add_pair_loop k f p i m = add_pair_loop (k + 1) f p i (add_pair m p i)"
  by (subst add_pair_loop.simps) simp

lemma add_pair_loop_stop: "\<not> k < f \<Longrightarrow> add_pair_loop k f p i m = m"
  by (subst add_pair_loop.simps) simp

lemma sparse_apply: "sparse xs i = (case map_of xs i of None \<Rightarrow> [] | Some c \<Rightarrow> c)"
  by (rule sparse_def)

lemma swprintf_pair_eval: "swprintf MAX_PAIR_LEN (fmt_ls_sp_ls a b) = take 255 (a @ 32 # b)"
  by (simp add: swprintf_def fmt_ls_sp_ls_def MAX_PAIR_LEN_def SP_def)

lemmas table_eval_simps = create_sparse add_pair_sparse add_pair_loop_step add_pair_loop_stop
  swprintf_pair_eval word_symbols_eq MAX_SYMBOLS_def hash_def HASH_SIZE_def

section \<open>Claims about the pair table\<close>

text \<open>The counting pass builds its table by calls of \<open>add_pair\<close> alone.\<close>

lemma reachable_add_pair_loop: "reachable m \<Longrightarrow> reachable (add_pair_loop k f p i m)"
proof (induction k f p i m rule: add_pair_loop.induct)
  case (1 k f p i m)
  show ?case
  proof (cases "k < f")
    case True
    from 1(2) have "reachable (add_pair m p i)" by (rule reachable_add)
    from 1(1)[OF True this] True show ?thesis by (subst add_pair_loop.simps) simp
  next
    case False
    with 1(2) show ?thesis by (subst add_pair_loop.simps) simp
  qed
qed

lemma reachable_count_pairs: "reachable m \<Longrightarrow> reachable (count_pairs symbols f i m)"
  by (induction symbols f i m rule: count_pairs.induct) (simp_all add: reachable_add_pair_loop)

lemma reachable_count_vocab: "reachable m \<Longrightarrow> reachable (count_vocab v i m)"
  by (induction v i m rule: count_vocab.induct) (simp_all add: reachable_count_pairs)

lemma count_vocab_scenario:
  "count_vocab scenario_store 0 create_bpe_hashmap = sparse scenario_chains"
  by (simp add: scenario_store_def scenario_chains_def table_eval_simps eval_simps sparse_apply)

lemma all_entries_scenario:
  "all_entries (sparse scenario_chains) = concat (map snd scenario_chains)"
  by (rule all_entries_sparse) (simp_all add: scenario_chains_def HASH_SIZE_def)

lemma find_most_scenario:
  "find_most_frequent_pair (sparse scenario_chains) = (wstr ''s t'', 9)"
  unfolding find_most_frequent_pair_all_entries all_entries_scenario
  by (simp add: scenario_chains_def wstr_def)

text \<open>
  C4. On a table built by \<open>add_pair\<close> that holds an entry, \<open>find_most_frequent_pair\<close>
  returns the key and count of an entry whose count no entry exceeds, and every entry
  visited before it has a smaller count: it is the first of the greatest count in the
  order of \<open>all_entries\<close>. On a table with no entry it returns the empty key and 0.
\<close>

theorem find_most_frequent_pair_first_max:
  "reachable m \<Longrightarrow>
     (all_entries m = [] \<longrightarrow> find_most_frequent_pair m = ([], 0)) \<and>
     (all_entries m \<noteq> [] \<longrightarrow>
        (\<exists>xs e ys. all_entries m = xs @ e # ys \<and>
           find_most_frequent_pair m = (pair e, count e) \<and>
           (\<forall>x\<in>set xs. count x < count e) \<and> (\<forall>y\<in>set ys. count y \<le> count e)))"
proof (intro conjI impI)
  assume "all_entries m = []"
  then show "find_most_frequent_pair m = ([], 0)"
    by (simp add: find_most_frequent_pair_all_entries)
next
  assume r: "reachable m" and ne: "all_entries m \<noteq> []"
  from r have inv: "table_inv m" by (rule reachable_table_inv)
  have pos: "\<forall>e\<in>set (all_entries m). 0 < count e"
    using inv by (auto simp: set_all_entries table_inv_def)
  from ne obtain a where "a \<in> set (all_entries m)" by (cases "all_entries m") auto
  with pos have "\<not> (\<forall>e\<in>set (all_entries m). count e \<le> 0)" by fastforce
  with scan_chain_result[of "all_entries m" "[]" 0]
  show "\<exists>xs e ys. all_entries m = xs @ e # ys \<and>
           find_most_frequent_pair m = (pair e, count e) \<and>
           (\<forall>x\<in>set xs. count x < count e) \<and> (\<forall>y\<in>set ys. count y \<le> count e)"
    unfolding find_most_frequent_pair_all_entries by blast
qed

text \<open>
  C7. In a table built by \<open>add_pair\<close> every key is held by at most one entry, and the
  count recorded for a key is the count of that entry. \<open>add_pair\<close> on a key the table
  holds adds no entry and raises the key's count by 1; on a key it does not hold it
  adds one entry, and the key's count is 1.
\<close>

theorem pair_key_held_once:
  "reachable m \<Longrightarrow>
     length (filter (\<lambda>e. pair e = k) (all_entries m)) \<le> 1 \<and>
     (\<forall>e\<in>set (all_entries m). pair_count m (pair e) = count e) \<and>
     (p \<in> pair ` set (all_entries m) \<longrightarrow>
        length (all_entries (add_pair m p i)) = length (all_entries m) \<and>
        pair_count (add_pair m p i) p = pair_count m p + 1) \<and>
     (p \<notin> pair ` set (all_entries m) \<longrightarrow>
        length (all_entries (add_pair m p i)) = length (all_entries m) + 1 \<and>
        pair_count (add_pair m p i) p = 1) \<and>
     reachable (add_pair m p i)"
proof (intro conjI impI ballI)
  assume r: "reachable m"
  then have inv: "table_inv m" by (rule reachable_table_inv)
  show "length (filter (\<lambda>e. pair e = k) (all_entries m)) \<le> 1"
    using inv by (rule key_held_once)
  show "reachable (add_pair m p i)"
    using r by (rule reachable_add)
  {
    fix e assume "e \<in> set (all_entries m)"
    with inv show "pair_count m (pair e) = count e" by (rule pair_count_member)
  }
  {
    assume "p \<in> pair ` set (all_entries m)"
    then have b: "bump_chain p (m (hash p)) \<noteq> None"
      using key_in_table[OF inv] by simp
    then show "length (all_entries (add_pair m p i)) = length (all_entries m)"
      by (simp add: length_all_entries_add_pair)
    show "pair_count (add_pair m p i) p = pair_count m p + 1"
      by (simp add: pair_count_add_pair)
  }
  {
    assume "p \<notin> pair ` set (all_entries m)"
    then have b: "bump_chain p (m (hash p)) = None"
      using key_in_table[OF inv] by simp
    then show "length (all_entries (add_pair m p i)) = length (all_entries m) + 1"
      by (simp add: length_all_entries_add_pair)
    from b have "pair_count m p = 0"
      unfolding pair_count_def by (intro chain_count_other) (simp add: bump_chain_None)
    then show "pair_count (add_pair m p i) p = 1"
      by (simp add: pair_count_add_pair)
  }
qed

theorem find_most_frequent_pair_first_max_witness:
  "reachable (sparse scenario_chains) \<and>
   all_entries (sparse scenario_chains) \<noteq> [] \<and>
   map (\<lambda>e. (pair e, count e)) (all_entries (sparse scenario_chains)) =
     [(wstr ''i d'', 3), (wstr ''s t'', 9), (wstr ''l o'', 7), (wstr ''d e'', 3), (wstr ''w e'', 8),
      (wstr ''w i'', 3), (wstr ''n e'', 6), (wstr ''e r'', 2), (wstr ''e s'', 9), (wstr ''e w'', 6),
      (wstr ''o w'', 7)] \<and>
   find_most_frequent_pair (sparse scenario_chains) = (wstr ''s t'', 9) \<and>
   (\<exists>xs e ys. all_entries (sparse scenario_chains) = xs @ e # ys \<and>
      find_most_frequent_pair (sparse scenario_chains) = (pair e, count e) \<and>
      (\<forall>x\<in>set xs. count x < count e) \<and> (\<forall>y\<in>set ys. count y \<le> count e))"
proof -
  have r: "reachable (sparse scenario_chains)"
    using reachable_count_vocab[OF reachable_create, of scenario_store 0]
    by (simp only: count_vocab_scenario)
  have ne: "all_entries (sparse scenario_chains) \<noteq> []"
    unfolding all_entries_scenario by (simp add: scenario_chains_def)
  have l: "map (\<lambda>e. (pair e, count e)) (all_entries (sparse scenario_chains)) =
     [(wstr ''i d'', 3), (wstr ''s t'', 9), (wstr ''l o'', 7), (wstr ''d e'', 3), (wstr ''w e'', 8),
      (wstr ''w i'', 3), (wstr ''n e'', 6), (wstr ''e r'', 2), (wstr ''e s'', 9), (wstr ''e w'', 6),
      (wstr ''o w'', 7)]"
    unfolding all_entries_scenario by (simp add: scenario_chains_def)
  from find_most_frequent_pair_first_max[OF r] ne
  have "\<exists>xs e ys. all_entries (sparse scenario_chains) = xs @ e # ys \<and>
      find_most_frequent_pair (sparse scenario_chains) = (pair e, count e) \<and>
      (\<forall>x\<in>set xs. count x < count e) \<and> (\<forall>y\<in>set ys. count y \<le> count e)"
    by blast
  with r ne l find_most_scenario show ?thesis by blast
qed

theorem pair_key_held_once_witness:
  "reachable (sparse scenario_chains) \<and>
   length (filter (\<lambda>e. pair e = wstr ''e s'') (all_entries (sparse scenario_chains))) \<le> 1 \<and>
   wstr ''e s'' \<in> pair ` set (all_entries (sparse scenario_chains)) \<and>
   pair_count (sparse scenario_chains) (wstr ''e s'') = 9 \<and>
   length (all_entries (add_pair (sparse scenario_chains) (wstr ''e s'') 7)) = 11 \<and>
   pair_count (add_pair (sparse scenario_chains) (wstr ''e s'') 7) (wstr ''e s'') = 10 \<and>
   wstr ''t s'' \<notin> pair ` set (all_entries (sparse scenario_chains)) \<and>
   length (all_entries (add_pair (sparse scenario_chains) (wstr ''t s'') 7)) = 12 \<and>
   pair_count (add_pair (sparse scenario_chains) (wstr ''t s'') 7) (wstr ''t s'') = 1"
proof -
  have r: "reachable (sparse scenario_chains)"
    using reachable_count_vocab[OF reachable_create, of scenario_store 0]
    by (simp only: count_vocab_scenario)
  have len: "length (all_entries (sparse scenario_chains)) = 11"
    unfolding all_entries_scenario by (simp add: scenario_chains_def)
  have keys: "pair ` set (all_entries (sparse scenario_chains)) =
      {wstr ''i d'', wstr ''s t'', wstr ''l o'', wstr ''d e'', wstr ''w e'', wstr ''w i'',
       wstr ''n e'', wstr ''e r'', wstr ''e s'', wstr ''e w'', wstr ''o w''}"
    unfolding all_entries_scenario by (simp add: scenario_chains_def)
  have i: "wstr ''e s'' \<in> pair ` set (all_entries (sparse scenario_chains))"
    unfolding keys by simp
  have o: "wstr ''t s'' \<notin> pair ` set (all_entries (sparse scenario_chains))"
    unfolding keys by (simp add: wstr_def)
  have c: "pair_count (sparse scenario_chains) (wstr ''e s'') = 9"
    by (simp add: pair_count_def chain_count_def sparse_apply scenario_chains_def hash_def
        HASH_SIZE_def wstr_def)
  note t1 = pair_key_held_once[OF r, of "wstr ''e s''" "wstr ''e s''" 7]
  note t2 = pair_key_held_once[OF r, of "wstr ''e s''" "wstr ''t s''" 7]
  from t1 t2 r len i o c show ?thesis by simp
qed

section \<open>Claims about the induction loop\<close>

lemma find_most_scenario_store:
  "find_most_frequent_pair (count_vocab scenario_store 0 create_bpe_hashmap) = (wstr ''s t'', 9)"
  by (simp only: count_vocab_scenario find_most_scenario)

lemma merge_vocab_scenario: "merge_vocab (wstr ''s t'') scenario_store = Inr scenario_merged"
  by (simp add: scenario_store_def scenario_merged_def eval_simps SP_def)

lemma bpe_loop_done: "\<not> merge_iter < num_merges \<Longrightarrow> bpe_loop merge_iter num_merges v = Inr (v, [])"
  by (subst bpe_loop.simps) simp

lemma bpe_loop_no_pairs:
  "merge_iter < num_merges \<Longrightarrow>
   snd (find_most_frequent_pair (count_vocab v 0 create_bpe_hashmap)) < 1 \<Longrightarrow>
   bpe_loop merge_iter num_merges v = Inr (v, [No_More_Pairs])"
  by (subst bpe_loop.simps) (simp add: case_prod_beta)

lemma bpe_loop_merge:
  "merge_iter < num_merges \<Longrightarrow>
   find_most_frequent_pair (count_vocab v 0 create_bpe_hashmap) = (best_pair, best_count) \<Longrightarrow>
   \<not> best_count < 1 \<Longrightarrow>
   bpe_loop merge_iter num_merges v =
     (case merge_vocab best_pair v of
        Inl x \<Rightarrow> Inl x
      | Inr v' \<Rightarrow>
          (case bpe_loop (merge_iter + 1) num_merges v' of
             Inl x \<Rightarrow> Inl x
           | Inr (w, lg) \<Rightarrow> Inr (w, Merge_Info (merge_iter + 1) best_pair best_count # lg)))"
  by (subst bpe_loop.simps) simp

text \<open>
  C1 as stated fails: \<open>s t\<close> and \<open>e s\<close> both count 9, \<open>s t\<close> hashes to partition 3404
  and \<open>e s\<close> to 8157, so the scan meets \<open>s t\<close> first and keeps it.
\<close>

theorem scenario_counterexample:
  "find_most_frequent_pair (count_vocab scenario_store 0 create_bpe_hashmap) \<noteq> (wstr ''e s'', 9) \<and>
   bpe_subword_merge 1 scenario_store \<noteq> Inr (scenario_claimed, [Merge_Info 1 (wstr ''e s'') 9])"
proof -
  have "bpe_subword_merge 1 scenario_store = Inr (scenario_merged, [Merge_Info 1 (wstr ''s t'') 9])"
    unfolding bpe_subword_merge_def
    by (simp add: bpe_loop_merge[OF _ find_most_scenario_store] merge_vocab_scenario bpe_loop_done)
  then show ?thesis
    by (simp add: find_most_scenario_store wstr_def)
qed

text \<open>
  C1, amended. On the scenario store with one merge allowed, the loop selects the pair
  \<open>(s, t)\<close> with count 9 and rewrites \<open>n e w e s t\<close> and \<open>w i d e s t\<close> to
  \<open>n e w e st\<close> and \<open>w i d e st\<close>; the count of \<open>(e, s)\<close> is 9 as well.
\<close>

theorem scenario_selects_s_t:
  "find_most_frequent_pair (count_vocab scenario_store 0 create_bpe_hashmap) = (wstr ''s t'', 9) \<and>
   pair_count (count_vocab scenario_store 0 create_bpe_hashmap) (wstr ''e s'') = 9 \<and>
   pair_count (count_vocab scenario_store 0 create_bpe_hashmap) (wstr ''s t'') = 9 \<and>
   hash (wstr ''s t'') = 3404 \<and> hash (wstr ''e s'') = 8157 \<and>
   bpe_subword_merge 1 scenario_store = Inr (scenario_merged, [Merge_Info 1 (wstr ''s t'') 9])"
proof (intro conjI)
  show "find_most_frequent_pair (count_vocab scenario_store 0 create_bpe_hashmap) = (wstr ''s t'', 9)"
    by (rule find_most_scenario_store)
  show "hash (wstr ''s t'') = 3404" "hash (wstr ''e s'') = 8157"
    by (simp_all add: hash_def HASH_SIZE_def wstr_def)
  then show "pair_count (count_vocab scenario_store 0 create_bpe_hashmap) (wstr ''e s'') = 9"
    "pair_count (count_vocab scenario_store 0 create_bpe_hashmap) (wstr ''s t'') = 9"
    unfolding count_vocab_scenario pair_count_def
    by (simp_all add: chain_count_def sparse_apply scenario_chains_def wstr_def)
  show "bpe_subword_merge 1 scenario_store = Inr (scenario_merged, [Merge_Info 1 (wstr ''s t'') 9])"
    unfolding bpe_subword_merge_def
    by (simp add: bpe_loop_merge[OF _ find_most_scenario_store] merge_vocab_scenario bpe_loop_done)
qed

lemma merge_token_length: "merge_token bp t = Inr t' \<Longrightarrow> length t' \<le> length t"
proof -
  assume "merge_token bp t = Inr t'"
  then have "t' = join_symbols (merge_syms bp (split_symbols t))"
    by (simp add: merge_token_eq split: if_splits)
  also have "length \<dots> \<le> length (join_symbols (split_symbols t))"
    using length_seps_merge_syms[of bp "split_symbols t"] by (simp add: length_join_symbols)
  also have "\<dots> \<le> length t" by (rule length_join_split_symbols)
  finally show ?thesis .
qed

lemma merge_vocab_short:
  "merge_vocab bp v = Inr v' \<Longrightarrow> \<forall>e\<in>set v. length (token e) < n \<Longrightarrow>
   \<forall>e\<in>set v'. length (token e) < n"
proof (induction v arbitrary: v')
  case Nil
  then show ?case by simp
next
  case (Cons e es)
  from Cons.prems(1) obtain u es' where u: "merge_token bp (token e) = Inr u"
    and es': "merge_vocab bp es = Inr es'" and v': "v' = e\<lparr>token := u\<rparr> # es'"
    by (auto split: sum.splits)
  from merge_token_length[OF u] Cons.prems(2) have "length u < n" by simp
  moreover from Cons.IH[OF es'] Cons.prems(2) have "\<forall>x\<in>set es'. length (token x) < n" by simp
  ultimately show ?case by (simp add: v')
qed

lemma bpe_loop_returns:
  "\<forall>e\<in>set v. length (token e) < MAX_TOKEN_LEN \<Longrightarrow> \<exists>w lg. bpe_loop i n v = Inr (w, lg)"
proof (induction i n v rule: bpe_loop.induct)
  case (1 i n v)
  show ?case
  proof (cases "i < n")
    case False
    then show ?thesis by (simp add: bpe_loop_done)
  next
    case True
    obtain bp bc where f: "find_most_frequent_pair (count_vocab v 0 create_bpe_hashmap) = (bp, bc)"
      by (cases "find_most_frequent_pair (count_vocab v 0 create_bpe_hashmap)")
    show ?thesis
    proof (cases "bc < 1")
      case True
      with \<open>i < n\<close> f show ?thesis by (simp add: bpe_loop_no_pairs)
    next
      case False
      from merge_vocab_returns[OF 1(2)] obtain v' where mv: "merge_vocab bp v = Inr v'"
        by blast
      from merge_vocab_short[OF mv 1(2)] have s: "\<forall>e\<in>set v'. length (token e) < MAX_TOKEN_LEN" .
      from f have f': "(bp, bc) = find_most_frequent_pair (count_vocab v 0 create_bpe_hashmap)"
        by simp
      from 1(1)[OF \<open>i < n\<close> f' False mv s] obtain w lg where "bpe_loop (i + 1) n v' = Inr (w, lg)"
        by blast
      then show ?thesis
        by (simp add: bpe_loop_merge[OF \<open>i < n\<close> f False] mv)
    qed
  qed
qed

lemma bpe_loop_log:
  "bpe_loop i n v = Inr (w, lg) \<Longrightarrow>
   int (length (filter is_merge lg)) \<le> max 0 (n - i) \<and>
   (\<forall>k p c. Merge_Info k p c \<in> set lg \<longrightarrow> 1 \<le> c \<and> i < k \<and> k \<le> n)"
proof (induction i n v arbitrary: w lg rule: bpe_loop.induct)
  case (1 i n v)
  show ?case
  proof (cases "i < n")
    case False
    with 1(2) show ?thesis by (simp add: bpe_loop_done)
  next
    case True
    obtain bp bc where f: "find_most_frequent_pair (count_vocab v 0 create_bpe_hashmap) = (bp, bc)"
      by (cases "find_most_frequent_pair (count_vocab v 0 create_bpe_hashmap)")
    show ?thesis
    proof (cases "bc < 1")
      case True
      with \<open>i < n\<close> f have "bpe_loop i n v = Inr (v, [No_More_Pairs])"
        by (simp add: bpe_loop_no_pairs)
      with 1(2) have "lg = [No_More_Pairs]" by simp
      with \<open>i < n\<close> show ?thesis by simp
    next
      case False
      note step = bpe_loop_merge[OF \<open>i < n\<close> f False]
      from 1(2) obtain v' where mv: "merge_vocab bp v = Inr v'"
        by (cases "merge_vocab bp v") (simp_all add: step)
      from 1(2) obtain w' lg' where rec: "bpe_loop (i + 1) n v' = Inr (w', lg')"
        by (cases "bpe_loop (i + 1) n v'") (auto simp: step mv)
      from 1(2) have lg: "lg = Merge_Info (i + 1) bp bc # lg'"
        by (simp add: step mv rec)
      from f have f': "(bp, bc) = find_most_frequent_pair (count_vocab v 0 create_bpe_hashmap)"
        by simp
      note ih = 1(1)[OF \<open>i < n\<close> f' False mv rec]
      from ih have a: "int (length (filter is_merge lg')) \<le> max 0 (n - (i + 1))"
        and b: "\<And>k p c. Merge_Info k p c \<in> set lg' \<Longrightarrow> 1 \<le> c \<and> i + 1 < k \<and> k \<le> n"
        by blast+
      from a \<open>i < n\<close> have "int (length (filter is_merge lg)) \<le> max 0 (n - i)"
        unfolding lg by simp
      moreover have "\<forall>k p c. Merge_Info k p c \<in> set lg \<longrightarrow> 1 \<le> c \<and> i < k \<and> k \<le> n"
      proof (intro allI impI)
        fix k p c assume "Merge_Info k p c \<in> set lg"
        then have "(k = i + 1 \<and> p = bp \<and> c = bc) \<or> Merge_Info k p c \<in> set lg'"
          unfolding lg by simp
        then show "1 \<le> c \<and> i < k \<and> k \<le> n"
        proof
          assume "k = i + 1 \<and> p = bp \<and> c = bc"
          with False \<open>i < n\<close> show ?thesis by simp
        next
          assume "Merge_Info k p c \<in> set lg'"
          from b[OF this] show ?thesis by simp
        qed
      qed
      ultimately show ?thesis by blast
    qed
  qed
qed

lemma count_vocab_one_pair:
  "find_most_frequent_pair (count_vocab one_pair_store 0 create_bpe_hashmap) = (wstr ''a b'', 1)"
  by (simp add: one_pair_store_def table_eval_simps eval_simps sparse_apply
      find_most_frequent_pair_sparse)

lemma count_vocab_one_symbol:
  "find_most_frequent_pair (count_vocab one_symbol_store 0 create_bpe_hashmap) = ([], 0)"
  by (simp add: one_symbol_store_def table_eval_simps eval_simps sparse_apply
      find_most_frequent_pair_sparse)

lemma merge_vocab_one_pair: "merge_vocab (wstr ''a b'') one_pair_store = Inr one_symbol_store"
  by (simp add: one_pair_store_def one_symbol_store_def eval_simps SP_def)

lemma bpe_subword_merge_one_pair:
  "bpe_subword_merge 1 one_pair_store = Inr (one_symbol_store, [Merge_Info 1 (wstr ''a b'') 1])"
  unfolding bpe_subword_merge_def
  by (simp add: bpe_loop_merge[OF _ count_vocab_one_pair] merge_vocab_one_pair bpe_loop_done)

text \<open>
  C2 as stated fails: the loop stops on \<^verbatim>\<open>best_count < 1\<close>, so a best pair that
  occurs once is merged.
\<close>

theorem loop_threshold_counterexample:
  "snd (find_most_frequent_pair (count_vocab one_pair_store 0 create_bpe_hashmap)) < 2 \<and>
   bpe_subword_merge 1 one_pair_store = Inr (one_symbol_store, [Merge_Info 1 (wstr ''a b'') 1])"
  by (simp add: count_vocab_one_pair bpe_subword_merge_one_pair)

text \<open>
  C2, amended. A run of the loop that completes logs at most \<open>num_merges\<close> merges, each
  numbered from 1 to \<open>num_merges\<close> and each with a best count of at least 1. In an
  iteration whose best count is below 1 the loop stops with the vocabulary as it is. In
  an iteration below \<open>num_merges\<close> whose best count is 1 or more, the best pair is
  merged in the whole vocabulary, the merge is logged and the loop goes on with the
  rewritten vocabulary. After \<open>num_merges\<close> iterations the loop stops. The run
  completes when every surface form is shorter than \<open>MAX_TOKEN_LEN\<close>.
\<close>

theorem loop_bounded_and_stops:
  "(bpe_subword_merge n v = Inr (w, lg) \<longrightarrow>
      int (length (filter is_merge lg)) \<le> max 0 n \<and>
      (\<forall>k p c. Merge_Info k p c \<in> set lg \<longrightarrow> 1 \<le> c \<and> 1 \<le> k \<and> k \<le> n)) \<and>
   (i < n \<and> snd (find_most_frequent_pair (count_vocab v 0 create_bpe_hashmap)) < 1 \<longrightarrow>
      bpe_loop i n v = Inr (v, [No_More_Pairs])) \<and>
   (i < n \<and> find_most_frequent_pair (count_vocab v 0 create_bpe_hashmap) = (bp, bc) \<and> 1 \<le> bc \<longrightarrow>
      bpe_loop i n v =
        (case merge_vocab bp v of
           Inl x \<Rightarrow> Inl x
         | Inr v' \<Rightarrow>
             (case bpe_loop (i + 1) n v' of
                Inl x \<Rightarrow> Inl x
              | Inr (u, l) \<Rightarrow> Inr (u, Merge_Info (i + 1) bp bc # l)))) \<and>
   (\<not> i < n \<longrightarrow> bpe_loop i n v = Inr (v, [])) \<and>
   ((\<forall>e\<in>set v. length (token e) < MAX_TOKEN_LEN) \<longrightarrow>
      (\<exists>w' lg'. bpe_subword_merge n v = Inr (w', lg')))"
proof (intro conjI impI)
  assume "i < n \<and> find_most_frequent_pair (count_vocab v 0 create_bpe_hashmap) = (bp, bc) \<and> 1 \<le> bc"
  then have "i < n" "find_most_frequent_pair (count_vocab v 0 create_bpe_hashmap) = (bp, bc)"
    "\<not> bc < 1"
    by simp_all
  then show "bpe_loop i n v =
        (case merge_vocab bp v of
           Inl x \<Rightarrow> Inl x
         | Inr v' \<Rightarrow>
             (case bpe_loop (i + 1) n v' of
                Inl x \<Rightarrow> Inl x
              | Inr (u, l) \<Rightarrow> Inr (u, Merge_Info (i + 1) bp bc # l)))"
    by (rule bpe_loop_merge)
next
  assume "\<forall>e\<in>set v. length (token e) < MAX_TOKEN_LEN"
  then show "\<exists>w' lg'. bpe_subword_merge n v = Inr (w', lg')"
    unfolding bpe_subword_merge_def by (rule bpe_loop_returns)
next
  assume "bpe_subword_merge n v = Inr (w, lg)"
  then have "bpe_loop 0 n v = Inr (w, lg)" by (simp add: bpe_subword_merge_def)
  note l = bpe_loop_log[OF this]
  from l show "int (length (filter is_merge lg)) \<le> max 0 n"
    by simp
  from l show "\<forall>k p c. Merge_Info k p c \<in> set lg \<longrightarrow> 1 \<le> c \<and> 1 \<le> k \<and> k \<le> n"
    by force
next
  assume "i < n \<and> snd (find_most_frequent_pair (count_vocab v 0 create_bpe_hashmap)) < 1"
  then show "bpe_loop i n v = Inr (v, [No_More_Pairs])"
    by (simp add: bpe_loop_no_pairs)
next
  assume "\<not> i < n"
  then show "bpe_loop i n v = Inr (v, [])" by (rule bpe_loop_done)
qed

theorem loop_bounded_and_stops_witness:
  "find_most_frequent_pair (count_vocab one_pair_store 0 create_bpe_hashmap) = (wstr ''a b'', 1) \<and>
   merge_vocab (wstr ''a b'') one_pair_store = Inr one_symbol_store \<and>
   bpe_loop 0 1 one_pair_store = Inr (one_symbol_store, [Merge_Info 1 (wstr ''a b'') 1]) \<and>
   bpe_subword_merge 1 one_pair_store = Inr (one_symbol_store, [Merge_Info 1 (wstr ''a b'') 1]) \<and>
   int (length (filter is_merge [Merge_Info 1 (wstr ''a b'') 1])) \<le> max 0 1 \<and>
   snd (find_most_frequent_pair (count_vocab one_symbol_store 0 create_bpe_hashmap)) < 1 \<and>
   bpe_loop 0 1 one_symbol_store = Inr (one_symbol_store, [No_More_Pairs]) \<and>
   bpe_loop 1 1 one_symbol_store = Inr (one_symbol_store, []) \<and>
   length (token (one_pair_store ! 0)) < MAX_TOKEN_LEN"
proof -
  have b: "\<forall>e\<in>set one_pair_store. length (token e) < MAX_TOKEN_LEN"
    "length (token (one_pair_store ! 0)) < MAX_TOKEN_LEN"
    by (simp_all add: one_pair_store_def wstr_def MAX_TOKEN_LEN_def)
  note t1 = loop_bounded_and_stops[where n = 1 and v = one_pair_store and w = one_symbol_store
      and lg = "[Merge_Info 1 (wstr ''a b'') 1]" and i = 0 and bp = "wstr ''a b''" and bc = 1]
  note t2 = loop_bounded_and_stops[where n = 1 and v = one_symbol_store and i = 0]
  note t3 = loop_bounded_and_stops[where n = 1 and v = one_symbol_store and i = 1]
  have s: "snd (find_most_frequent_pair (count_vocab one_symbol_store 0 create_bpe_hashmap)) < 1"
    by (simp add: count_vocab_one_symbol)
  from t3 have d: "bpe_loop 1 1 one_symbol_store = Inr (one_symbol_store, [])"
    by simp
  from t2 s have np: "bpe_loop 0 1 one_symbol_store = Inr (one_symbol_store, [No_More_Pairs])"
    by simp
  from t1 count_vocab_one_pair
  have "bpe_loop 0 1 one_pair_store =
        (case merge_vocab (wstr ''a b'') one_pair_store of
           Inl x \<Rightarrow> Inl x
         | Inr v' \<Rightarrow>
             (case bpe_loop (0 + 1) 1 v' of
                Inl x \<Rightarrow> Inl x
              | Inr (u, l) \<Rightarrow> Inr (u, Merge_Info (0 + 1) (wstr ''a b'') 1 # l)))"
    by simp
  then have m: "bpe_loop 0 1 one_pair_store = Inr (one_symbol_store, [Merge_Info 1 (wstr ''a b'') 1])"
    by (simp add: merge_vocab_one_pair d)
  then have r: "bpe_subword_merge 1 one_pair_store = Inr (one_symbol_store, [Merge_Info 1 (wstr ''a b'') 1])"
    by (simp add: bpe_subword_merge_def)
  from t1 r have "int (length (filter is_merge [Merge_Info 1 (wstr ''a b'') 1])) \<le> max 0 1"
    by blast
  moreover from t1 b have "\<exists>w' lg'. bpe_subword_merge 1 one_pair_store = Inr (w', lg')"
    by blast
  ultimately show ?thesis
    using count_vocab_one_pair merge_vocab_one_pair m r s np d b by simp
qed

section \<open>Claims about the vocabulary store\<close>

lemma bump_freq_None: "bump_freq t v = None \<longleftrightarrow> t \<notin> token ` set v"
  by (induction v) auto

lemma bump_freq_Some:
  "t \<in> token ` set v \<Longrightarrow>
   \<exists>xs e ys. v = xs @ e # ys \<and> t \<notin> token ` set xs \<and> token e = t \<and>
     bump_freq t v = Some (xs @ e\<lparr>freq := freq e + 1\<rparr> # ys)"
proof (induction v)
  case Nil
  then show ?case by simp
next
  case (Cons a v)
  show ?case
  proof (cases "token a = t")
    case True
    then have "a # v = [] @ a # v \<and> t \<notin> token ` set [] \<and> token a = t \<and>
        bump_freq t (a # v) = Some ([] @ a\<lparr>freq := freq a + 1\<rparr> # v)"
      by simp
    then show ?thesis by blast
  next
    case False
    with Cons.prems have "t \<in> token ` set v" by auto
    from Cons.IH[OF this] obtain xs e ys where v: "v = xs @ e # ys" and n: "t \<notin> token ` set xs"
      and e: "token e = t" and b: "bump_freq t v = Some (xs @ e\<lparr>freq := freq e + 1\<rparr> # ys)"
      by blast
    from False v n e b
    have "a # v = (a # xs) @ e # ys \<and> t \<notin> token ` set (a # xs) \<and> token e = t \<and>
        bump_freq t (a # v) = Some ((a # xs) @ e\<lparr>freq := freq e + 1\<rparr> # ys)"
      by auto
    then show ?thesis by blast
  qed
qed

lemma add_to_vocabulary_ids:
  "map id_v (take (length v) (add_to_vocabulary v t)) = map id_v v \<and>
   map token (take (length v) (add_to_vocabulary v t)) = map token v"
proof (cases "t \<in> token ` set v")
  case True
  from bump_freq_Some[OF this] obtain xs e ys where v: "v = xs @ e # ys"
    and b: "bump_freq t v = Some (xs @ e\<lparr>freq := freq e + 1\<rparr> # ys)"
    by blast
  have "add_to_vocabulary v t = xs @ e\<lparr>freq := freq e + 1\<rparr> # ys"
    by (simp add: add_to_vocabulary_def b)
  then show ?thesis by (simp add: v)
next
  case False
  then have "bump_freq t v = None" by (simp add: bump_freq_None)
  then show ?thesis by (simp add: add_to_vocabulary_def)
qed

text \<open>
  C8 as stated fails on a store that holds \<open>MAX_VOCAB_SIZE\<close> entries: a surface form
  that is not present is not appended.
\<close>

theorem upsert_full_store_counterexample:
  "wstr ''b'' \<notin> token ` set full_store \<and>
   add_to_vocabulary full_store (wstr ''b'') \<noteq>
     full_store @ [\<lparr>token = wstr ''b'', id_v = of_nat (length full_store), freq = 1\<rparr>]"
proof -
  have n: "wstr ''b'' \<notin> token ` set full_store"
    by (auto simp: full_store_def wstr_def)
  then have "bump_freq (wstr ''b'') full_store = None" by (simp add: bump_freq_None)
  then have "add_to_vocabulary full_store (wstr ''b'') = full_store"
    by (simp add: add_to_vocabulary_def full_store_def MAX_VOCAB_SIZE_def)
  then have "length (add_to_vocabulary full_store (wstr ''b'')) \<noteq>
      length (full_store @ [\<lparr>token = wstr ''b'', id_v = of_nat (length full_store), freq = 1\<rparr>])"
    by simp
  with n show ?thesis by metis
qed

text \<open>
  C8, amended. Where an entry holds the surface form, \<open>add_to_vocabulary\<close> raises the
  frequency of the first such entry by 1 and changes nothing else. Where none does and
  the store holds fewer than \<open>MAX_VOCAB_SIZE\<close> entries, it appends an entry of
  frequency 1 whose id is the size of the store. The entries already present keep
  their ids and surface forms, and a store whose ids are its indices stays such a store.
\<close>

theorem upsert_bumps_or_appends:
  "(t \<in> token ` set v \<longrightarrow>
      (\<exists>xs e ys. v = xs @ e # ys \<and> t \<notin> token ` set xs \<and> token e = t \<and>
         add_to_vocabulary v t = xs @ e\<lparr>freq := freq e + 1\<rparr> # ys)) \<and>
   (t \<notin> token ` set v \<and> length v < MAX_VOCAB_SIZE \<longrightarrow>
      add_to_vocabulary v t = v @ [\<lparr>token = t, id_v = of_nat (length v), freq = 1\<rparr>] \<and>
      unat (of_nat (length v) :: 32 word) = length v) \<and>
   map id_v (take (length v) (add_to_vocabulary v t)) = map id_v v \<and>
   map token (take (length v) (add_to_vocabulary v t)) = map token v \<and>
   ((\<forall>j<length v. id_v (v ! j) = of_nat j) \<longrightarrow>
      (\<forall>j<length (add_to_vocabulary v t). id_v (add_to_vocabulary v t ! j) = of_nat j))"
proof (intro conjI impI)
  assume "t \<in> token ` set v"
  from bump_freq_Some[OF this] obtain xs e ys where x: "v = xs @ e # ys"
    "t \<notin> token ` set xs" "token e = t"
    and b: "bump_freq t v = Some (xs @ e\<lparr>freq := freq e + 1\<rparr> # ys)"
    by blast
  from b have "add_to_vocabulary v t = xs @ e\<lparr>freq := freq e + 1\<rparr> # ys"
    by (simp add: add_to_vocabulary_def)
  with x show "\<exists>xs e ys. v = xs @ e # ys \<and> t \<notin> token ` set xs \<and> token e = t \<and>
         add_to_vocabulary v t = xs @ e\<lparr>freq := freq e + 1\<rparr> # ys"
    by blast
next
  assume a: "t \<notin> token ` set v \<and> length v < MAX_VOCAB_SIZE"
  then have "bump_freq t v = None" by (simp add: bump_freq_None)
  with a show "add_to_vocabulary v t = v @ [\<lparr>token = t, id_v = of_nat (length v), freq = 1\<rparr>]"
    by (simp add: add_to_vocabulary_def)
  from a have "length v < 2 ^ 32" by (simp add: MAX_VOCAB_SIZE_def)
  then show "unat (of_nat (length v) :: 32 word) = length v"
    by (simp add: unat_of_nat)
next
  show "map id_v (take (length v) (add_to_vocabulary v t)) = map id_v v"
    and "map token (take (length v) (add_to_vocabulary v t)) = map token v"
    using add_to_vocabulary_ids[of v t] by simp_all
next
  assume ids: "\<forall>j<length v. id_v (v ! j) = of_nat j"
  show "\<forall>j<length (add_to_vocabulary v t). id_v (add_to_vocabulary v t ! j) = of_nat j"
  proof (intro allI impI)
    fix j assume j: "j < length (add_to_vocabulary v t)"
    show "id_v (add_to_vocabulary v t ! j) = of_nat j"
    proof (cases "j < length v")
      case True
      with j have "id_v (add_to_vocabulary v t ! j) = map id_v (take (length v) (add_to_vocabulary v t)) ! j"
        by simp
      also have "\<dots> = id_v (v ! j)"
        using add_to_vocabulary_ids[of v t] True by simp
      finally show ?thesis using ids True by simp
    next
      case False
      have "length (add_to_vocabulary v t) = length v \<or>
          add_to_vocabulary v t = v @ [\<lparr>token = t, id_v = of_nat (length v), freq = 1\<rparr>]"
      proof (cases "t \<in> token ` set v")
        case True
        from bump_freq_Some[OF this] obtain xs e ys where "v = xs @ e # ys"
          "bump_freq t v = Some (xs @ e\<lparr>freq := freq e + 1\<rparr> # ys)"
          by blast
        then show ?thesis by (simp add: add_to_vocabulary_def)
      next
        case False
        then have "bump_freq t v = None" by (simp add: bump_freq_None)
        then show ?thesis by (simp add: add_to_vocabulary_def)
      qed
      with j False have "add_to_vocabulary v t = v @ [\<lparr>token = t, id_v = of_nat (length v), freq = 1\<rparr>]"
        and "j = length v"
        by auto
      then show ?thesis by simp
    qed
  qed
qed

theorem upsert_bumps_or_appends_witness:
  "wstr ''new'' \<in> token ` set small_store \<and>
   (\<exists>xs e ys. small_store = xs @ e # ys \<and> wstr ''new'' \<notin> token ` set xs \<and>
      token e = wstr ''new'' \<and>
      add_to_vocabulary small_store (wstr ''new'') = xs @ e\<lparr>freq := freq e + 1\<rparr> # ys) \<and>
   add_to_vocabulary small_store (wstr ''new'') =
     [\<lparr>token = wstr ''low'', id_v = 0, freq = 5\<rparr>, \<lparr>token = wstr ''new'', id_v = 1, freq = 3\<rparr>] \<and>
   wstr ''wide'' \<notin> token ` set small_store \<and> length small_store < MAX_VOCAB_SIZE \<and>
   add_to_vocabulary small_store (wstr ''wide'') =
     [\<lparr>token = wstr ''low'', id_v = 0, freq = 5\<rparr>, \<lparr>token = wstr ''new'', id_v = 1, freq = 2\<rparr>,
      \<lparr>token = wstr ''wide'', id_v = 2, freq = 1\<rparr>] \<and>
   id_v (add_to_vocabulary small_store (wstr ''wide'') ! 2) = of_nat 2"
proof -
  note t1 = upsert_bumps_or_appends[of "wstr ''new''" small_store]
  note t2 = upsert_bumps_or_appends[of "wstr ''wide''" small_store]
  have a: "wstr ''new'' \<in> token ` set small_store" "wstr ''wide'' \<notin> token ` set small_store"
    "length small_store < MAX_VOCAB_SIZE"
    by (simp_all add: small_store_def wstr_def MAX_VOCAB_SIZE_def)
  have i: "\<forall>j<length small_store. id_v (small_store ! j) = of_nat j"
    by (simp add: small_store_def less_Suc_eq)
  from t1 a have e: "\<exists>xs e ys. small_store = xs @ e # ys \<and> wstr ''new'' \<notin> token ` set xs \<and>
      token e = wstr ''new'' \<and>
      add_to_vocabulary small_store (wstr ''new'') = xs @ e\<lparr>freq := freq e + 1\<rparr> # ys"
    by blast
  from t2 a have "add_to_vocabulary small_store (wstr ''wide'') =
      small_store @ [\<lparr>token = wstr ''wide'', id_v = of_nat (length small_store), freq = 1\<rparr>]"
    by blast
  then have w: "add_to_vocabulary small_store (wstr ''wide'') =
     [\<lparr>token = wstr ''low'', id_v = 0, freq = 5\<rparr>, \<lparr>token = wstr ''new'', id_v = 1, freq = 2\<rparr>,
      \<lparr>token = wstr ''wide'', id_v = 2, freq = 1\<rparr>]"
    by (simp add: small_store_def)
  from t2 i have "\<forall>j<length (add_to_vocabulary small_store (wstr ''wide'')).
      id_v (add_to_vocabulary small_store (wstr ''wide'') ! j) = of_nat j"
    by blast
  then have d: "id_v (add_to_vocabulary small_store (wstr ''wide'') ! 2) = of_nat 2"
    by (simp add: w)
  have n: "add_to_vocabulary small_store (wstr ''new'') =
     [\<lparr>token = wstr ''low'', id_v = 0, freq = 5\<rparr>, \<lparr>token = wstr ''new'', id_v = 1, freq = 3\<rparr>]"
    by (simp add: add_to_vocabulary_def small_store_def wstr_def)
  from a e n w d show ?thesis by blast
qed

text \<open>
  C9. On a store that holds \<open>MAX_VOCAB_SIZE\<close> entries or more, \<open>add_to_vocabulary\<close> of a
  surface form that is not present returns the store as it is.
\<close>

theorem upsert_at_capacity_unchanged:
  "MAX_VOCAB_SIZE \<le> length v \<Longrightarrow> t \<notin> token ` set v \<Longrightarrow> add_to_vocabulary v t = v"
  by (simp add: add_to_vocabulary_def bump_freq_None[THEN iffD2])

theorem upsert_at_capacity_unchanged_witness:
  "MAX_VOCAB_SIZE \<le> length full_store \<and> wstr ''b'' \<notin> token ` set full_store \<and>
   add_to_vocabulary full_store (wstr ''b'') = full_store"
proof -
  have l: "MAX_VOCAB_SIZE \<le> length full_store"
    by (simp add: full_store_def MAX_VOCAB_SIZE_def)
  have n: "wstr ''b'' \<notin> token ` set full_store"
    by (auto simp: full_store_def wstr_def)
  from upsert_at_capacity_unchanged[OF l n] l n show ?thesis by blast
qed

end
